theory Spec2Isabelle
  imports Main "HOL-Library.AList"
begin

section \<open>Strings of the source language\<close>

text \<open>
  The converter is TypeScript; its strings are sequences of code units. They are modelled
  as HOL strings, one \<^typ>\<open>char\<close> per code unit, read as the code units U+0000 to
  U+00FF. The four characters the converter tests for are named.
\<close>

definition DQ :: char where "DQ = CHR 0x22"
definition COMMA :: char where "COMMA = CHR 0x2C"
definition LF :: char where "LF = CHR 0x0A"
definition CR :: char where "CR = CHR 0x0D"

text \<open>
  \<open>String.prototype.trim\<close> removes white space and line terminators from both ends.
  In the modelled range these are TAB, LF, VT, FF, CR, SPACE and NBSP.
\<close>

definition isWhiteSpace :: "char \<Rightarrow> bool" where
  "isWhiteSpace c =
     (c = CHR 0x09 \<or> c = CHR 0x0A \<or> c = CHR 0x0B \<or> c = CHR 0x0C \<or> c = CHR 0x0D
      \<or> c = CHR 0x20 \<or> c = CHR 0xA0)"

definition trim :: "string \<Rightarrow> string" where
  "trim s = rev (dropWhile isWhiteSpace (rev (dropWhile isWhiteSpace s)))"

text \<open>
  \<open>toLowerCase\<close> and \<open>toUpperCase\<close> on the modelled range map the ASCII letters and
  the Latin-1 letters U+00C0..U+00DE / U+00E0..U+00FE (without the multiplication and
  division signs U+00D7, U+00F7) to each other, position by position in the two tables.
  Upper-casing U+00DF gives the two code units \<open>SS\<close>. The upper-case images of U+00B5
  and U+00FF lie outside the modelled range (and outside ASCII); these two code units are
  kept as they are.
\<close>

definition upperLetters :: string where
  "upperLetters =
     ''ABCDEFGHIJKLMNOPQRSTUVWXYZ'' @
     [CHR 0xC0, CHR 0xC1, CHR 0xC2, CHR 0xC3, CHR 0xC4, CHR 0xC5, CHR 0xC6, CHR
      0xC7, CHR 0xC8, CHR 0xC9, CHR 0xCA, CHR 0xCB, CHR 0xCC, CHR 0xCD, CHR 0xCE,
      CHR 0xCF, CHR 0xD0, CHR 0xD1, CHR 0xD2, CHR 0xD3, CHR 0xD4, CHR 0xD5, CHR
      0xD6, CHR 0xD8, CHR 0xD9, CHR 0xDA, CHR 0xDB, CHR 0xDC, CHR 0xDD, CHR 0xDE]"

definition lowerLetters :: string where
  "lowerLetters =
     ''abcdefghijklmnopqrstuvwxyz'' @
     [CHR 0xE0, CHR 0xE1, CHR 0xE2, CHR 0xE3, CHR 0xE4, CHR 0xE5, CHR 0xE6, CHR
      0xE7, CHR 0xE8, CHR 0xE9, CHR 0xEA, CHR 0xEB, CHR 0xEC, CHR 0xED, CHR 0xEE,
      CHR 0xEF, CHR 0xF0, CHR 0xF1, CHR 0xF2, CHR 0xF3, CHR 0xF4, CHR 0xF5, CHR
      0xF6, CHR 0xF8, CHR 0xF9, CHR 0xFA, CHR 0xFB, CHR 0xFC, CHR 0xFD, CHR 0xFE]"

definition lowerChar :: "char \<Rightarrow> char" where
  "lowerChar c = (case map_of (zip upperLetters lowerLetters) c of Some d \<Rightarrow> d | None \<Rightarrow> c)"

definition toLowerCase :: "string \<Rightarrow> string" where
  "toLowerCase s = map lowerChar s"

definition upperChar :: "char \<Rightarrow> string" where
  "upperChar c =
     (if c = CHR 0xDF then ''SS''
      else (case map_of (zip lowerLetters upperLetters) c of Some d \<Rightarrow> [d] | None \<Rightarrow> [c]))"

definition toUpperCase :: "string \<Rightarrow> string" where
  "toUpperCase s = concat (map upperChar s)"

text \<open>\<open>Array.prototype.join\<close>.\<close>

fun join :: "string \<Rightarrow> string list \<Rightarrow> string" where
  "join sep [] = []"
| "join sep [x] = x"
| "join sep (x # y # ys) = x @ sep @ join sep (y # ys)"

text \<open>Decimal rendering of a non-negative integer in a template literal.\<close>

definition digit :: "nat \<Rightarrow> char" where
  "digit d = ''0123456789'' ! d"

fun showNat :: "nat \<Rightarrow> string" where
  "showNat n = (if n < 10 then [digit n] else showNat (n div 10) @ [digit (n mod 10)])"

declare showNat.simps [simp del]

section \<open>Field parser\<close>

text \<open>
  \<open>csvContent.split(/\r?\n/)\<close>: the text is cut at every LF, and a CR directly before
  that LF belongs to the separator. The empty text gives one empty line.
\<close>

fun splitLines :: "string \<Rightarrow> string list" where
  "splitLines [] = [[]]"
| "splitLines [c] = (if c = LF then [[], []] else [[c]])"
| "splitLines (c # d # cs) =
     (if c = LF then [] # splitLines (d # cs)
      else if c = CR \<and> d = LF then [] # splitLines cs
      else (case splitLines (d # cs) of
              l # ls \<Rightarrow> (c # l) # ls
            | [] \<Rightarrow> [[c]]))"

text \<open>
  The loop of \<open>parseCSVLine\<close> over the characters that are left, with the local variables
  \<open>result\<close>, \<open>current\<close> and \<open>inQuotes\<close> as arguments. Reading \<open>line[i + 1]\<close> at the last
  character gives \<open>undefined\<close>, which is not a quote.
\<close>

fun parseLoop :: "string list \<Rightarrow> string \<Rightarrow> bool \<Rightarrow> string \<Rightarrow> string list \<times> string \<times> bool" where
  "parseLoop result current inQuotes [] = (result, current, inQuotes)"
| "parseLoop result current True [c] =
     (if c = DQ then parseLoop result current False []
      else parseLoop result (current @ [c]) True [])"
| "parseLoop result current True (c # d # cs) =
     (if c = DQ \<and> d = DQ then parseLoop result (current @ [DQ]) True cs
      else if c = DQ then parseLoop result current False (d # cs)
      else parseLoop result (current @ [c]) True (d # cs))"
| "parseLoop result current False (c # cs) =
     (if c = DQ then parseLoop result current True cs
      else if c = COMMA then parseLoop (result @ [current]) [] False cs
      else parseLoop result (current @ [c]) False cs)"

definition parseCSVLine :: "string \<Rightarrow> string list" where
  "parseCSVLine line =
     (case parseLoop [] [] False line of (result, current, inQuotes) \<Rightarrow> result @ [current])"

text \<open>The value of \<open>inQuotes\<close> when the loop of \<open>parseCSVLine\<close> leaves the line.\<close>

definition endsInQuotes :: "string \<Rightarrow> bool" where
  "endsInQuotes line = (case parseLoop [] [] False line of (result, current, inQuotes) \<Rightarrow> inQuotes)"

text \<open>
  A parsed row is an object keyed by header text. Its own keys are kept in insertion
  order, and assigning to a key that is already there replaces the value in place
  (\<^const>\<open>AList.update\<close>). Two features of objects are left out, because no key they
  concern can match one of the column names looked up below: integer-like keys are
  enumerated before the others, and an assignment to \<open>__proto__\<close> stores no own key.
\<close>

type_synonym RawRow = "(string \<times> string) list"

datatype error = Error string

definition EmptyInputError :: error where
  "EmptyInputError = Error ''CSV file is empty''"

definition MissingColumnsError :: "string list \<Rightarrow> error" where
  "MissingColumnsError missing = Error (''Missing required columns: '' @ join '', '' missing)"

definition NoQuestionsError :: error where
  "NoQuestionsError = Error ''No valid MC questions found in the input file''"

text \<open>\<open>values[index] || ''\<close>: a position beyond the parsed fields gives the empty string.\<close>

definition valueAt :: "string list \<Rightarrow> nat \<Rightarrow> string" where
  "valueAt values index = (if index < length values then values ! index else [])"

definition makeRow :: "string list \<Rightarrow> string list \<Rightarrow> RawRow" where
  "makeRow headers values =
     foldl (\<lambda>row (index, header). AList.update header (valueAt values index) row)
       [] (enumerate 0 headers)"

text \<open>The first statement of \<open>parseCSV\<close>: the lines that are not blank after trimming.\<close>

definition nonBlankLines :: "string \<Rightarrow> string list" where
  "nonBlankLines csvContent = filter (\<lambda>line. trim line \<noteq> []) (splitLines csvContent)"

definition parseCSV :: "string \<Rightarrow> error + (string list \<times> RawRow list)" where
  "parseCSV csvContent =
     (case nonBlankLines csvContent of
        [] \<Rightarrow> Inl EmptyInputError
      | first # rest \<Rightarrow>
          (let headers = parseCSVLine first
           in Inr (headers, map (\<lambda>line. makeRow headers (parseCSVLine line)) rest)))"

section \<open>Column validator and row typing\<close>

definition REQUIRED_COLUMNS :: "string list" where
  "REQUIRED_COLUMNS = [''Q Type'', ''Q Text'', ''Answer'', ''Answer Match'', ''Notes'']"

definition validateColumns :: "string list \<Rightarrow> bool \<times> string list" where
  "validateColumns headers =
     (let normalizedHeaders = map (\<lambda>h. toLowerCase (trim h)) headers;
          missing = filter (\<lambda>required. toLowerCase required \<notin> set normalizedHeaders)
                      REQUIRED_COLUMNS
      in (missing = [], missing))"

text \<open>
  \<open>getColumnValue\<close>: the first own key whose trimmed, lower-cased text is the lower-cased
  column name; \<open>key ? row[key] : ''\<close> also gives the empty string for an empty key.
\<close>

definition getColumnValue :: "RawRow \<Rightarrow> string \<Rightarrow> string" where
  "getColumnValue row columnName =
     (case find (\<lambda>k. toLowerCase (trim k) = toLowerCase columnName) (map fst row) of
        None \<Rightarrow> []
      | Some key \<Rightarrow>
          (if key = [] then []
           else (case map_of row key of Some v \<Rightarrow> v | None \<Rightarrow> [])))"

text \<open>The field \<open>notes\<close> of a source row is written \<open>notes'\<close>.\<close>

record SourceRow =
  qNumber :: string
  qType :: string
  qText :: string
  question :: string
  answer :: string
  answerMatch :: string
  notes' :: string

definition loadSourceRows :: "RawRow list \<Rightarrow> SourceRow list" where
  "loadSourceRows rows =
     map (\<lambda>row. \<lparr> qNumber = getColumnValue row ''Q #'',
                  qType = getColumnValue row ''Q Type'',
                  qText = getColumnValue row ''Q Text'',
                  question = getColumnValue row ''Question'',
                  answer = getColumnValue row ''Answer'',
                  answerMatch = getColumnValue row ''Answer Match'',
                  notes' = getColumnValue row ''Notes'' \<rparr>) rows"

section \<open>Grouper\<close>

text \<open>
  An element of \<open>QuestionGroup.options\<close>, and the group itself. The names \<open>answer\<close>,
  \<open>qText\<close> and \<open>question\<close> are fields of a source row already, so the option's answer
  is \<open>optAnswer\<close> and the group's fields carry the prefix \<open>g\<close>.
\<close>

record AnswerOption =
  optAnswer :: string
  isCorrect :: bool
  feedback :: string

record QuestionGroup =
  gQText :: string
  gQuestion :: string
  options :: "AnswerOption list"

record ConversionResult =
  csvContent :: string
  questionsCount :: nat
  optionsCount :: nat
  warnings :: "string list"
  skippedRows :: nat

text \<open>
  \<open>groupMap\<close> is a \<open>Map\<close>: keys in insertion order, \<open>set\<close> on a new key appends. The
  group object fetched with \<open>get\<close> is the one stored in the map, so \<open>push\<close> on its
  options changes the stored entry in place.
\<close>

type_synonym GroupMap = "(string \<times> QuestionGroup) list"

definition groupRow :: "GroupMap \<times> string list \<times> nat \<Rightarrow> SourceRow \<Rightarrow> GroupMap \<times> string list \<times> nat" where
  "groupRow state row =
     (case state of (groupMap, warns, skipped) \<Rightarrow>
        (let qNum = trim (qNumber row)
         in if qNum = [] then
              (groupMap,
               warns @ [''Row with Q Text '' @ [DQ] @ take 30 (qText row) @ ''...'' @ [DQ]
                          @ '' has no Q # - skipped''],
               skipped + 1)
            else
              (let qTy = toUpperCase (trim (qType row))
               in if qTy \<noteq> ''MC'' then
                    (groupMap,
                     warns @ [''Row with Q# '' @ [DQ] @ qNumber row @ [DQ] @ '' has type ''
                                @ [DQ] @ qType row @ [DQ] @ '' (not MC) - skipped''],
                     skipped + 1)
                  else
                    (let groupKey = qNum;
                         correct = (toLowerCase (trim (answerMatch row)) = ''correct'');
                         groupMap1 =
                           (if map_of groupMap groupKey = None
                            then AList.update groupKey
                                   \<lparr> gQText = qText row, gQuestion = [], options = [] \<rparr> groupMap
                            else groupMap)
                     in (AList.map_entry groupKey
                           (\<lambda>grp. grp \<lparr> options := options grp @
                              [\<lparr> optAnswer = answer row, isCorrect = correct,
                                 feedback = notes' row \<rparr>] \<rparr>) groupMap1,
                         warns, skipped)))))"

text \<open>The first loop of \<open>groupQuestions\<close>, from the empty map.\<close>

definition groupLoop :: "SourceRow list \<Rightarrow> GroupMap \<times> string list \<times> nat" where
  "groupLoop rows = foldl groupRow ([], [], 0) rows"

text \<open>The second loop: one warning for a group with no or with several correct options.\<close>

definition groupWarning :: "QuestionGroup \<Rightarrow> string list" where
  "groupWarning grp =
     (let correctCount = length (filter isCorrect (options grp));
          questionPreview = take 50 (gQText grp @ '' '' @ gQuestion grp) @ ''...''
      in if correctCount = 0 then
           [''Question '' @ [DQ] @ questionPreview @ [DQ] @ '' has no correct answer'']
         else if correctCount > 1 then
           [''Question '' @ [DQ] @ questionPreview @ [DQ] @ '' has '' @ showNat correctCount
              @ '' correct answers'']
         else [])"

definition groupQuestions :: "SourceRow list \<Rightarrow> QuestionGroup list \<times> string list \<times> nat" where
  "groupQuestions rows =
     (case groupLoop rows of (groupMap, warns, skipped) \<Rightarrow>
        (let groups = map snd groupMap
         in (groups, foldl (\<lambda>ws grp. ws @ groupWarning grp) warns groups, skipped)))"

section \<open>Emitter\<close>

text \<open>\<open>value.replace(/"/g, '""')\<close>: every double quote is written twice.\<close>

fun doubleQuotes :: "string \<Rightarrow> string" where
  "doubleQuotes [] = []"
| "doubleQuotes (c # cs) = (if c = DQ then DQ # DQ # doubleQuotes cs else c # doubleQuotes cs)"

definition escapeCSV :: "string \<Rightarrow> string" where
  "escapeCSV v =
     (if COMMA \<in> set v \<or> DQ \<in> set v \<or> LF \<in> set v
      then [DQ] @ doubleQuotes v @ [DQ] else v)"

text \<open>
  \<open>points\<close> is a number that the emitter only interpolates into a template literal. The
  model takes the text of that interpolation (the number rendered by the language) as
  the argument \<open>points\<close>.
\<close>

definition emitOption :: "string list \<times> nat \<Rightarrow> AnswerOption \<Rightarrow> string list \<times> nat" where
  "emitOption state opt =
     (case state of (lines, count) \<Rightarrow>
        (let weight = (if isCorrect opt then 100 else 0 :: nat);
             ans = escapeCSV (optAnswer opt);
             fb = escapeCSV (feedback opt)
         in (lines @ [''Option,'' @ showNat weight @ '','' @ ans @ '',,'' @ fb], count + 1)))"

definition emitGroup :: "string \<Rightarrow> string list \<times> nat \<Rightarrow> QuestionGroup \<Rightarrow> string list \<times> nat" where
  "emitGroup points state grp =
     (case state of (lines, count) \<Rightarrow>
        (let lines1 = lines @ [''NewQuestion,MC,,,''];
             fullText = trim (gQText grp);
             lines2 = lines1 @ [''QuestionText,'' @ escapeCSV fullText @ '',,,''];
             lines3 = lines2 @ [''Points,'' @ points @ '',,,'']
         in (case foldl emitOption (lines3, count) (options grp) of
               (lines4, count') \<Rightarrow> (lines4 @ ['',,,,''], count'))))"

definition generateD2LCSV :: "QuestionGroup list \<Rightarrow> string \<Rightarrow> string \<times> nat" where
  "generateD2LCSV groups points =
     (case foldl (emitGroup points) ([], 0) groups of
        (lines, count) \<Rightarrow> (join [LF] lines, count))"

section \<open>Top-level conversion\<close>

definition convertToD2L :: "string \<Rightarrow> string \<Rightarrow> error + ConversionResult" where
  "convertToD2L content points =
     (case parseCSV content of
        Inl e \<Rightarrow> Inl e
      | Inr (headers, rows) \<Rightarrow>
          (case validateColumns headers of (valid, missing) \<Rightarrow>
             if \<not> valid then Inl (MissingColumnsError missing)
             else
               (let sourceRows = loadSourceRows rows
                in case groupQuestions sourceRows of (groups, warns, skipped) \<Rightarrow>
                     if length groups = 0 then Inl NoQuestionsError
                     else
                       (case generateD2LCSV groups points of (csv, count) \<Rightarrow>
                          Inr \<lparr> csvContent = csv, questionsCount = length groups,
                                optionsCount = count, warnings = warns,
                                skippedRows = skipped \<rparr>))))"

section \<open>Notions used to state the properties\<close>

text \<open>
  A row is kept by the grouper when neither of the two \<open>continue\<close> branches of its loop
  is taken: the trimmed question number is not empty and the trimmed, upper-cased type
  is \<open>MC\<close>. The group key of a kept row is its trimmed question number, and the option
  pushed for it is \<open>rowOption\<close>.
\<close>

definition validRow :: "SourceRow \<Rightarrow> bool" where
  "validRow row = (trim (qNumber row) \<noteq> [] \<and> toUpperCase (trim (qType row)) = ''MC'')"

definition rowKey :: "SourceRow \<Rightarrow> string" where
  "rowKey row = trim (qNumber row)"

definition rowOption :: "SourceRow \<Rightarrow> AnswerOption" where
  "rowOption row =
     \<lparr> optAnswer = answer row,
       isCorrect = (toLowerCase (trim (answerMatch row)) = ''correct''),
       feedback = notes' row \<rparr>"

text \<open>The kept rows with key \<open>k\<close>, in input order.\<close>

definition rowsOfKey :: "string \<Rightarrow> SourceRow list \<Rightarrow> SourceRow list" where
  "rowsOfKey k rows = filter (\<lambda>row. validRow row \<and> rowKey row = k) rows"

text \<open>The elements of a list in the order of their first occurrence.\<close>

definition firstOccurrences :: "'a list \<Rightarrow> 'a list" where
  "firstOccurrences xs = rev (remdups (rev xs))"

text \<open>
  The group that the specification describes for key \<open>k\<close>: the stem of the first kept
  row with that key, and one option per kept row with that key.
\<close>

definition groupOfKey :: "SourceRow list \<Rightarrow> string \<Rightarrow> QuestionGroup" where
  "groupOfKey rows k =
     \<lparr> gQText = (case rowsOfKey k rows of [] \<Rightarrow> [] | row # rest \<Rightarrow> qText row),
       gQuestion = [],
       options = map rowOption (rowsOfKey k rows) \<rparr>"

text \<open>The text of one option line, and the lines of one question block.\<close>

definition optionLine :: "AnswerOption \<Rightarrow> string" where
  "optionLine opt =
     ''Option,'' @ showNat (if isCorrect opt then 100 else 0) @ '','' @ escapeCSV (optAnswer opt)
       @ '',,'' @ escapeCSV (feedback opt)"

definition groupLines :: "string \<Rightarrow> QuestionGroup \<Rightarrow> string list" where
  "groupLines points grp =
     [''NewQuestion,MC,,,'', ''QuestionText,'' @ escapeCSV (trim (gQText grp)) @ '',,,'',
      ''Points,'' @ points @ '',,,'']
     @ map optionLine (options grp) @ ['',,,,'']"

definition totalOptions :: "QuestionGroup list \<Rightarrow> nat" where
  "totalOptions groups = sum_list (map (\<lambda>grp. length (options grp)) groups)"

text \<open>
  The fields that the emitter joins with commas to form the lines of a question block
  (text fields escaped), and the values they were made from (text fields as they are, the
  stem trimmed).
\<close>

definition optionFields :: "AnswerOption \<Rightarrow> string list" where
  "optionFields opt =
     [''Option'', showNat (if isCorrect opt then 100 else 0), escapeCSV (optAnswer opt), [],
      escapeCSV (feedback opt)]"

definition groupFields :: "string \<Rightarrow> QuestionGroup \<Rightarrow> string list list" where
  "groupFields points grp =
     [[''NewQuestion'', ''MC'', [], [], []],
      [''QuestionText'', escapeCSV (trim (gQText grp)), [], [], []],
      [''Points'', points, [], [], []]]
     @ map optionFields (options grp) @ [[[], [], [], [], []]]"

definition optionValues :: "AnswerOption \<Rightarrow> string list" where
  "optionValues opt =
     [''Option'', showNat (if isCorrect opt then 100 else 0), optAnswer opt, [], feedback opt]"

definition groupValues :: "string \<Rightarrow> QuestionGroup \<Rightarrow> string list list" where
  "groupValues points grp =
     [[''NewQuestion'', ''MC'', [], [], []],
      [''QuestionText'', trim (gQText grp), [], [], []],
      [''Points'', points, [], [], []]]
     @ map optionValues (options grp) @ [[[], [], [], [], []]]"

text \<open>
  A field of the emitted text has no raw special character when it is either free of
  commas, double quotes and line feeds, or starts with a double quote and ends with the
  double quote that closes it, every double quote in between being doubled.
  \<open>closesAtEnd\<close> reads the text after the opening quote.
\<close>

fun closesAtEnd :: "string \<Rightarrow> bool" where
  "closesAtEnd [] = False"
| "closesAtEnd [c] = (c = DQ)"
| "closesAtEnd (c # d # cs) = (if c = DQ then d = DQ \<and> closesAtEnd cs else closesAtEnd (d # cs))"

definition wellEscaped :: "string \<Rightarrow> bool" where
  "wellEscaped field =
     (case field of
        [] \<Rightarrow> True
      | c # cs \<Rightarrow>
          if c = DQ then closesAtEnd cs
          else COMMA \<notin> set field \<and> DQ \<notin> set field \<and> LF \<notin> set field)"

text \<open>
  Two parsed rows that differ at most in the values stored under a question-prompt
  column, that is, under a key that \<open>getColumnValue\<close> matches with \<open>Question\<close>.
\<close>

definition sameExceptQuestion :: "RawRow \<Rightarrow> RawRow \<Rightarrow> bool" where
  "sameExceptQuestion row1 row2 =
     list_all2 (\<lambda>(k1, v1) (k2, v2).
                  k1 = k2 \<and> (toLowerCase (trim k1) = toLowerCase ''Question'' \<or> v1 = v2))
       row1 row2"

text \<open>Inputs on which the theorems below are exercised.\<close>

definition sampleHeader :: string where
  "sampleHeader = ''Q #,Q Type,Q Text,Question,Answer,Answer Match,Notes''"

definition sampleInput :: string where
  "sampleInput =
     sampleHeader @ [CR, LF]
     @ ''7,MC,Capital?,p1,Paris,Correct,yes'' @ [LF]
     @ '',MC,No number,p2,x,Correct,y'' @ [LF]
     @ '' 7 ,mc,Other,p3,'' @ [DQ] @ ''Lyon, maybe'' @ [DQ] @ '',wrong,''"

definition noNotesInput :: string where
  "noNotesInput =
     '' q type ,Q TEXT,Answer,Question,Answer Match'' @ [LF] @ ''MC,Stem,yes,,Correct''"

definition allSkippedInput :: string where
  "allSkippedInput =
     sampleHeader @ [LF] @ ''1,SA,Explain,p,text,Correct,n'' @ [LF] @ '',MC,No number,p,x,,''"

definition sampleRows :: "SourceRow list" where
  "sampleRows =
     [\<lparr> qNumber = ''7'', qType = ''MC'', qText = ''Capital?'', question = ''p1'',
        answer = ''Paris'', answerMatch = '' Correct'', notes' = ''yes'' \<rparr>,
      \<lparr> qNumber = ''8'', qType = ''MC'', qText = ''Capital?'', question = ''p2'',
        answer = ''Rome'', answerMatch = ''incorrect'', notes' = ''no'' \<rparr>,
      \<lparr> qNumber = [], qType = ''MC'', qText = ''No number'', question = ''p3'',
        answer = ''x'', answerMatch = ''Correct'', notes' = ''y'' \<rparr>,
      \<lparr> qNumber = '' 7 '', qType = ''mc'', qText = ''Other'', question = ''p4'',
        answer = ''Lyon, maybe'', answerMatch = ''corect'', notes' = [] \<rparr>]"

definition promptInput :: string where
  "promptInput =
     sampleHeader @ [CR, LF]
     @ ''7,MC,Capital?,,Paris,Correct,yes'' @ [LF]
     @ '',MC,No number,other prompt,x,Correct,y'' @ [LF]
     @ '' 7 ,mc,Other,'' @ [DQ] @ ''a, b'' @ [DQ] @ '','' @ [DQ] @ ''Lyon, maybe'' @ [DQ] @ '',wrong,''"

definition promptFirstHeader :: string where
  "promptFirstHeader = ''Question,Q #,Q Type,Q Text,Answer,Answer Match,Notes''"

definition promptLineInput :: string where
  "promptLineInput =
     promptFirstHeader @ [LF] @ ''p1,1,MC,Stem,A,Correct,n'' @ [LF] @ ''p2''"

definition blankLineInput :: string where
  "blankLineInput =
     promptFirstHeader @ [LF] @ '',1,MC,Stem,A,Correct,n'' @ [LF]"

definition newlineGroup :: QuestionGroup where
  "newlineGroup =
     \<lparr> gQText = ''Stem'', gQuestion = [],
       options = [\<lparr> optAnswer = ''x'' @ [LF] @ ''y'', isCorrect = False, feedback = ''f'' \<rparr>] \<rparr>"

definition quotedGroup :: QuestionGroup where
  "quotedGroup =
     \<lparr> gQText = '' Say '' @ [DQ] @ ''hi'' @ [DQ] @ '', then go '', gQuestion = [],
       options = [\<lparr> optAnswer = ''a, b'', isCorrect = True, feedback = [DQ] \<rparr>,
                  \<lparr> optAnswer = [], isCorrect = False, feedback = ''plain'' \<rparr>] \<rparr>"


section \<open>Evaluation\<close>

text \<open>
  Lower-casing read off the bits of a code unit: the upper-case letters of the table are
  the code units 0x41..0x5A and 0xC0..0xDE without 0xD7, and their lower-case images
  differ from them in bit 5 only. The equation replaces the table lookup when concrete
  inputs are evaluated.
\<close>

lemma lowerChar_bits [code]:
  "lowerChar (Char b0 b1 b2 b3 b4 b5 b6 b7) =
     (if b6 \<and> \<not> b5 \<and>
         (if b7 then \<not> (b0 \<and> b1 \<and> b2 \<and> b4)
          else (b0 \<or> b1 \<or> b2 \<or> b3 \<or> b4) \<and> \<not> (b4 \<and> b3 \<and> (b2 \<or> (b1 \<and> b0))))
      then Char b0 b1 b2 b3 b4 True b6 b7
      else Char b0 b1 b2 b3 b4 b5 b6 b7)"
  by (induct b0; induct b1; induct b2; induct b3; induct b4; induct b5; induct b6; induct b7;
      code_simp)


section \<open>The field parser on unterminated quotes\<close>

text \<open>
  Scanning a prefix and then the rest is the same as scanning the whole, unless the
  prefix ends in a double quote (the scanner looks one character ahead at a quote only).
\<close>

lemma parseLoop_append:
  "pre = [] \<or> last pre \<noteq> DQ \<Longrightarrow>
   parseLoop r c q (pre @ ys) =
     (case parseLoop r c q pre of (r', c', q') \<Rightarrow> parseLoop r' c' q' ys)"
proof (induction r c q pre rule: parseLoop.induct)
  case (1 result current inQuotes)
  then show ?case by simp
next
  case (2 result current c)
  then show ?case by (cases ys) auto
next
  case (3 result current c d cs)
  then show ?case by (auto split: if_splits)
next
  case (4 result current c cs)
  then show ?case by (auto split: if_splits)
qed

text \<open>Inside quotes the scanner reads a text with every double quote doubled back as the
  text it was made from, and stays inside quotes.\<close>

lemma parseLoop_inside_doubled:
  "parseLoop r cur True (doubleQuotes v) = (r, cur @ v, True)"
proof (induction v arbitrary: cur)
  case Nil
  then show ?case by simp
next
  case (Cons c cs)
  show ?case
  proof (cases "c = DQ")
    case True
    with Cons show ?thesis by simp
  next
    case False
    show ?thesis
    proof (cases "doubleQuotes cs")
      case Nil
      with False Cons [of "cur @ [c]"] show ?thesis by simp
    next
      case (Cons d ds)
      with False Cons.IH [of "cur @ [c]"] show ?thesis by simp
    qed
  qed
qed

lemma doubleQuotes_Nil_iff: "doubleQuotes v = [] \<longleftrightarrow> v = []"
  by (cases v) auto

text \<open>
  A scan that ends inside quotes either never left the quotes it started in, or consists
  of a prefix that ends outside quotes and not in a double quote, an opening double quote,
  and a text in which every double quote is doubled.
\<close>

lemma ends_in_quotes_shape:
  "snd (snd (parseLoop r cur q xs)) \<Longrightarrow>
   (q \<and> (\<exists>v. xs = doubleQuotes v)) \<or>
   (\<exists>pre v. xs = pre @ DQ # doubleQuotes v \<and> (pre = [] \<or> last pre \<noteq> DQ) \<and>
             \<not> snd (snd (parseLoop r cur q pre)))"
proof (induction r cur q xs rule: parseLoop.induct)
  case (1 result current inQuotes)
  then have "[] = doubleQuotes []" and inQuotes by simp_all
  then show ?case by blast
next
  case (2 result current c)
  then have "c \<noteq> DQ" by (auto split: if_splits)
  then have "[c] = doubleQuotes [c]" by simp
  then show ?case by blast
next
  case (3 result current c d cs)
  show ?case
  proof (cases "c = DQ")
    case cq: True
    show ?thesis
    proof (cases "d = DQ")
      case dq: True
      from 3 cq dq have "snd (snd (parseLoop result (current @ [DQ]) True cs))" by simp
      with "3.IH"(1) cq dq consider
          v where "cs = doubleQuotes v"
        | pre v where "cs = pre @ DQ # doubleQuotes v" "pre = [] \<or> last pre \<noteq> DQ"
            "\<not> snd (snd (parseLoop result (current @ [DQ]) True pre))"
        by blast
      then show ?thesis
      proof cases
        case 1
        then have "c # d # cs = doubleQuotes (DQ # v)" using cq dq by simp
        then show ?thesis by blast
      next
        case 2
        then have ne: "pre \<noteq> []" by auto
        with 2 have "c # d # cs = (DQ # DQ # pre) @ DQ # doubleQuotes v"
          "last (DQ # DQ # pre) \<noteq> DQ"
          "\<not> snd (snd (parseLoop result current True (DQ # DQ # pre)))"
          using cq dq by simp_all
        then show ?thesis by blast
      qed
    next
      case dn: False
      from 3 cq dn have "snd (snd (parseLoop result current False (d # cs)))" by simp
      with "3.IH"(2) cq dn obtain pre v where
        pv: "d # cs = pre @ DQ # doubleQuotes v" "pre = [] \<or> last pre \<noteq> DQ"
            "\<not> snd (snd (parseLoop result current False pre))"
        by blast
      from pv(1) dn obtain pre' where pre: "pre = d # pre'"
        by (cases pre) auto
      with pv have "c # d # cs = (DQ # pre) @ DQ # doubleQuotes v"
          "last (DQ # pre) \<noteq> DQ"
          "\<not> snd (snd (parseLoop result current True (DQ # pre)))"
        using cq dn by simp_all
      then show ?thesis by blast
    qed
  next
    case cn: False
    from 3 cn have "snd (snd (parseLoop result (current @ [c]) True (d # cs)))" by simp
    with "3.IH"(3) cn consider
        v where "d # cs = doubleQuotes v"
      | pre v where "d # cs = pre @ DQ # doubleQuotes v" "pre = [] \<or> last pre \<noteq> DQ"
          "\<not> snd (snd (parseLoop result (current @ [c]) True pre))"
      by blast
    then show ?thesis
    proof cases
      case 1
      then have "c # d # cs = doubleQuotes (c # v)" using cn by simp
      then show ?thesis by blast
    next
      case 2
      then obtain p pre' where pre: "pre = p # pre'" by (cases pre) auto
      with 2 have "c # d # cs = (c # pre) @ DQ # doubleQuotes v"
          "last (c # pre) \<noteq> DQ"
          "\<not> snd (snd (parseLoop result current True (c # pre)))"
        using cn by simp_all
      then show ?thesis by blast
    qed
  qed
next
  case (4 result current c cs)
  show ?case
  proof (cases "c = DQ")
    case cq: True
    from 4 cq have "snd (snd (parseLoop result current True cs))" by simp
    with "4.IH"(1) cq consider
        v where "cs = doubleQuotes v"
      | pre v where "cs = pre @ DQ # doubleQuotes v" "pre = [] \<or> last pre \<noteq> DQ"
          "\<not> snd (snd (parseLoop result current True pre))"
      by blast
    then show ?thesis
    proof cases
      case 1
      then have "c # cs = [] @ DQ # doubleQuotes v"
        "\<not> snd (snd (parseLoop result current False []))"
        using cq by simp_all
      then show ?thesis by blast
    next
      case 2
      then have ne: "pre \<noteq> []" by auto
      with 2 have "c # cs = (DQ # pre) @ DQ # doubleQuotes v"
          "last (DQ # pre) \<noteq> DQ"
          "\<not> snd (snd (parseLoop result current False (DQ # pre)))"
        using cq by simp_all
      then show ?thesis by blast
    qed
  next
    case cn: False
    show ?thesis
    proof (cases "c = COMMA")
      case cc: True
      from 4 cn cc have "snd (snd (parseLoop (result @ [current]) [] False cs))" by simp
      with "4.IH"(2) cn cc obtain pre v where
        pv: "cs = pre @ DQ # doubleQuotes v" "pre = [] \<or> last pre \<noteq> DQ"
            "\<not> snd (snd (parseLoop (result @ [current]) [] False pre))"
        by blast
      then have "c # cs = (c # pre) @ DQ # doubleQuotes v"
          "last (c # pre) \<noteq> DQ"
          "\<not> snd (snd (parseLoop result current False (c # pre)))"
        using cn cc by auto
      then show ?thesis by blast
    next
      case co: False
      from 4 cn co have "snd (snd (parseLoop result (current @ [c]) False cs))" by simp
      with "4.IH"(3) cn co obtain pre v where
        pv: "cs = pre @ DQ # doubleQuotes v" "pre = [] \<or> last pre \<noteq> DQ"
            "\<not> snd (snd (parseLoop result (current @ [c]) False pre))"
        by blast
      then have "c # cs = (c # pre) @ DQ # doubleQuotes v"
          "last (c # pre) \<noteq> DQ"
          "\<not> snd (snd (parseLoop result current False (c # pre)))"
        using cn co by auto
      then show ?thesis by blast
    qed
  qed
qed


text \<open>
  Claim C10. \<open>parseCSVLine\<close> is a total function into lists of fields (the model has no
  error value because the source has no \<open>throw\<close>), and it always returns at least one
  field. A line ends inside an unterminated quoted section exactly when it consists of a
  prefix \<open>pre\<close> that is left outside quotes and does not end in a double quote, an
  opening double quote, and a rest in which every double quote is doubled
  (\<open>doubleQuotes v\<close>). On every such line the characters \<open>v\<close> accumulated after the
  opening quote (commas included, a doubled quote as one quote) are appended to the
  field that was in progress at the quote, and that field is emitted as the final field.
\<close>

theorem parseCSVLine_unterminated_quote:
  "parseCSVLine line \<noteq> [] \<and>
   ((pre = [] \<or> last pre \<noteq> DQ) \<and> \<not> endsInQuotes pre \<longrightarrow>
      endsInQuotes (pre @ DQ # doubleQuotes v) \<and>
      parseCSVLine (pre @ DQ # doubleQuotes v) =
        butlast (parseCSVLine pre) @ [last (parseCSVLine pre) @ v]) \<and>
   (endsInQuotes line \<longrightarrow>
      (\<exists>pre v. line = pre @ DQ # doubleQuotes v \<and> (pre = [] \<or> last pre \<noteq> DQ) \<and>
                \<not> endsInQuotes pre))"
proof (intro conjI impI)
  show "parseCSVLine line \<noteq> []"
    by (simp add: parseCSVLine_def split: prod.splits)
next
  assume a: "(pre = [] \<or> last pre \<noteq> DQ) \<and> \<not> endsInQuotes pre"
  obtain r cur where st: "parseLoop [] [] False pre = (r, cur, False)"
    using a by (cases "parseLoop [] [] False pre") (auto simp: endsInQuotes_def)
  have "parseLoop [] [] False (pre @ DQ # doubleQuotes v) = parseLoop r cur False (DQ # doubleQuotes v)"
    using a by (simp add: parseLoop_append st)
  also have "\<dots> = (r, cur @ v, True)"
    by (simp add: parseLoop_inside_doubled)
  finally have whole: "parseLoop [] [] False (pre @ DQ # doubleQuotes v) = (r, cur @ v, True)" .
  from whole show "endsInQuotes (pre @ DQ # doubleQuotes v)"
    by (simp add: endsInQuotes_def)
  from whole st show "parseCSVLine (pre @ DQ # doubleQuotes v) =
      butlast (parseCSVLine pre) @ [last (parseCSVLine pre) @ v]"
    by (simp add: parseCSVLine_def)
next
  assume "endsInQuotes line"
  then have "snd (snd (parseLoop [] [] False line))"
    by (simp add: endsInQuotes_def split: prod.splits)
  from ends_in_quotes_shape [OF this] obtain pre v where
    "line = pre @ DQ # doubleQuotes v" "pre = [] \<or> last pre \<noteq> DQ"
    "\<not> snd (snd (parseLoop [] [] False pre))"
    by blast
  then show "\<exists>pre v. line = pre @ DQ # doubleQuotes v \<and> (pre = [] \<or> last pre \<noteq> DQ) \<and>
                \<not> endsInQuotes pre"
    by (auto simp: endsInQuotes_def split: prod.splits)
qed

theorem parseCSVLine_unterminated_quote_witness:
  "\<not> endsInQuotes ''x,y'' \<and>
   endsInQuotes (''x,y'' @ [DQ] @ ''a'' @ [DQ, DQ] @ ''b,c'') \<and>
   parseCSVLine (''x,y'' @ [DQ] @ ''a'' @ [DQ, DQ] @ ''b,c'') = [''x'', ''ya'' @ [DQ] @ ''b,c'']"
proof -
  have h: "(''x,y'' = [] \<or> last ''x,y'' \<noteq> DQ) \<and> \<not> endsInQuotes ''x,y''"
    by code_simp
  have d: "''x,y'' @ DQ # doubleQuotes (''a'' @ [DQ] @ ''b,c'') =
      ''x,y'' @ [DQ] @ ''a'' @ [DQ, DQ] @ ''b,c''"
    by code_simp
  have v: "butlast (parseCSVLine ''x,y'') @ [last (parseCSVLine ''x,y'') @ (''a'' @ [DQ] @ ''b,c'')] =
      [''x'', ''ya'' @ [DQ] @ ''b,c'']"
    by code_simp
  from parseCSVLine_unterminated_quote [of "''x,y''" "''x,y''" "''a'' @ [DQ] @ ''b,c''"] h
  have "endsInQuotes (''x,y'' @ DQ # doubleQuotes (''a'' @ [DQ] @ ''b,c'')) \<and>
      parseCSVLine (''x,y'' @ DQ # doubleQuotes (''a'' @ [DQ] @ ''b,c'')) =
        butlast (parseCSVLine ''x,y'') @ [last (parseCSVLine ''x,y'') @ (''a'' @ [DQ] @ ''b,c'')]"
    by blast
  with h show ?thesis
    by (simp only: d v simp_thms)
qed


section \<open>What the grouper and the emitter compute\<close>

lemma firstOccurrences_snoc:
  "firstOccurrences (xs @ [x]) =
     (if x \<in> set xs then firstOccurrences xs else firstOccurrences xs @ [x])"
  by (simp add: firstOccurrences_def)

lemma set_firstOccurrences [simp]: "set (firstOccurrences xs) = set xs"
  by (simp add: firstOccurrences_def)

lemma distinct_firstOccurrences [simp]: "distinct (firstOccurrences xs)"
  by (simp add: firstOccurrences_def)

lemma map_of_tabulate:
  "map_of (map (\<lambda>k. (k, f k)) ks) k = (if k \<in> set ks then Some (f k) else None)"
  by (induction ks) auto

lemma update_tabulate_new:
  "k \<notin> set ks \<Longrightarrow> AList.update k v (map (\<lambda>k. (k, f k)) ks) = map (\<lambda>k. (k, f k)) ks @ [(k, v)]"
  by (induction ks) auto

lemma map_entry_tabulate:
  "distinct ks \<Longrightarrow> AList.map_entry k g (map (\<lambda>k. (k, f k)) ks) =
     map (\<lambda>k'. (k', if k' = k then g (f k') else f k')) ks"
  by (induction ks) auto

lemma map_entry_snoc_new:
  "k \<notin> fst ` set al \<Longrightarrow> AList.map_entry k g (al @ [(k, v)]) = al @ [(k, g v)]"
  by (induction al) auto

lemma groupLoop_snoc: "groupLoop (rows @ [row]) = groupRow (groupLoop rows) row"
  by (simp add: groupLoop_def)

lemma rowsOfKey_snoc:
  "rowsOfKey k (rows @ [row]) =
     (if validRow row \<and> rowKey row = k then rowsOfKey k rows @ [row] else rowsOfKey k rows)"
  by (simp add: rowsOfKey_def)

lemma rowsOfKey_empty_iff:
  "rowsOfKey k rows = [] \<longleftrightarrow> k \<notin> set (map rowKey (filter validRow rows))"
  by (auto simp: rowsOfKey_def filter_empty_conv)

lemma groupRow_invalid:
  "\<not> validRow row \<Longrightarrow>
   groupRow (gm, ws, sk) row = (gm, snd (groupRow (gm, ws, sk) row))  \<and>
   snd (snd (groupRow (gm, ws, sk) row)) = sk + 1"
  by (auto simp: groupRow_def validRow_def Let_def)

lemma groupRow_valid:
  "validRow row \<Longrightarrow>
   groupRow (gm, ws, sk) row =
     (AList.map_entry (rowKey row) (\<lambda>grp. grp \<lparr> options := options grp @ [rowOption row] \<rparr>)
        (if map_of gm (rowKey row) = None
         then AList.update (rowKey row) \<lparr> gQText = qText row, gQuestion = [], options = [] \<rparr> gm
         else gm),
      ws, sk)"
  by (simp add: groupRow_def validRow_def rowKey_def rowOption_def Let_def)

lemma groupMap_char:
  "fst (groupLoop rows) =
     map (\<lambda>k. (k, groupOfKey rows k)) (firstOccurrences (map rowKey (filter validRow rows)))"
proof (induction rows rule: rev_induct)
  case Nil
  then show ?case by (simp add: groupLoop_def firstOccurrences_def)
next
  case (snoc row rows)
  let ?ks = "firstOccurrences (map rowKey (filter validRow rows))"
  obtain ws sk where st: "groupLoop rows = (map (\<lambda>k. (k, groupOfKey rows k)) ?ks, ws, sk)"
    using snoc by (cases "groupLoop rows") auto
  show ?case
  proof (cases "validRow row")
    case False
    then have same: "\<And>k. groupOfKey (rows @ [row]) k = groupOfKey rows k"
      by (simp add: groupOfKey_def rowsOfKey_snoc)
    have "fst (groupRow (groupLoop rows) row) = map (\<lambda>k. (k, groupOfKey rows k)) ?ks"
      unfolding st using groupRow_invalid [OF False, of _ ws sk] by (metis fst_conv)
    with False show ?thesis
      by (simp add: groupLoop_snoc same)
  next
    case True
    let ?k = "rowKey row"
    have step: "fst (groupRow (groupLoop rows) row) =
        AList.map_entry ?k (\<lambda>grp. grp \<lparr> options := options grp @ [rowOption row] \<rparr>)
          (if ?k \<in> set ?ks then map (\<lambda>k. (k, groupOfKey rows k)) ?ks
           else map (\<lambda>k. (k, groupOfKey rows k)) ?ks @
                [(?k, \<lparr> gQText = qText row, gQuestion = [], options = [] \<rparr>)])"
      by (simp add: st groupRow_valid [OF True] map_of_tabulate update_tabulate_new)
    show ?thesis
    proof (cases "?k \<in> set ?ks")
      case in_ks: True
      then have ne: "rowsOfKey ?k rows \<noteq> []"
        by (simp add: rowsOfKey_empty_iff)
      have "\<And>k. (if k = ?k then (groupOfKey rows k) \<lparr> options := options (groupOfKey rows k) @ [rowOption row] \<rparr>
                 else groupOfKey rows k) = groupOfKey (rows @ [row]) k"
        using True ne by (auto simp: groupOfKey_def rowsOfKey_snoc split: list.splits)
      then show ?thesis
        using in_ks True
        by (simp add: groupLoop_snoc step map_entry_tabulate firstOccurrences_snoc)
    next
      case notin: False
      then have emp: "rowsOfKey ?k rows = []"
        by (simp add: rowsOfKey_empty_iff)
      have others: "\<And>k. k \<in> set ?ks \<Longrightarrow> groupOfKey (rows @ [row]) k = groupOfKey rows k"
        using notin by (auto simp: groupOfKey_def rowsOfKey_snoc)
      have new: "groupOfKey (rows @ [row]) ?k =
          \<lparr> gQText = qText row, gQuestion = [], options = [rowOption row] \<rparr>"
        using True emp by (simp add: groupOfKey_def rowsOfKey_snoc)
      have "fst ` set (map (\<lambda>k. (k, groupOfKey rows k)) ?ks) = set ?ks"
        by (auto simp: image_iff)
      then have nk: "?k \<notin> fst ` set (map (\<lambda>k. (k, groupOfKey rows k)) ?ks)"
        using notin by simp
      have mp: "map (\<lambda>k. (k, groupOfKey (rows @ [row]) k)) ?ks = map (\<lambda>k. (k, groupOfKey rows k)) ?ks"
        using others by (simp cong: map_cong)
      have "fst (groupLoop (rows @ [row])) =
          map (\<lambda>k. (k, groupOfKey rows k)) ?ks @ [(?k, groupOfKey (rows @ [row]) ?k)]"
        using notin by (simp add: groupLoop_snoc step map_entry_snoc_new [OF nk] new)
      then show ?thesis
        using notin True by (simp add: firstOccurrences_snoc mp)
    qed
  qed
qed


lemma emitOption_foldl:
  "foldl emitOption (lines, n) opts = (lines @ map optionLine opts, n + length opts)"
  by (induction opts arbitrary: lines n) (simp_all add: emitOption_def optionLine_def Let_def)

lemma emitGroup_eq:
  "emitGroup points (lines, n) grp = (lines @ groupLines points grp, n + length (options grp))"
  by (simp add: emitGroup_def Let_def emitOption_foldl groupLines_def)

lemma emitGroup_foldl:
  "foldl (emitGroup points) (lines, n) groups =
     (lines @ concat (map (groupLines points) groups), n + totalOptions groups)"
  by (induction groups arbitrary: lines n) (simp_all add: emitGroup_eq totalOptions_def)

lemma generateD2LCSV_eq:
  "generateD2LCSV groups points =
     (join [LF] (concat (map (groupLines points) groups)), totalOptions groups)"
  by (simp add: generateD2LCSV_def emitGroup_foldl)

lemma total_map_entry:
  "totalOptions (map snd (AList.map_entry k (\<lambda>grp. grp \<lparr> options := options grp @ [opt] \<rparr>) gm)) =
     totalOptions (map snd gm) + (if map_of gm k = None then 0 else 1)"
  by (induction gm) (auto simp: totalOptions_def)

lemma total_update_new:
  "map_of gm k = None \<Longrightarrow>
   totalOptions (map snd (AList.update k grp gm)) = totalOptions (map snd gm) + length (options grp)"
  by (induction gm) (auto simp: totalOptions_def)

lemma map_of_update_same: "map_of (AList.update k v al) k = Some v"
  by (simp add: update_conv')

lemma groupRow_counts:
  "groupRow (gm, ws, sk) row = (gm', ws', sk') \<Longrightarrow>
   totalOptions (map snd gm') = totalOptions (map snd gm) + (if validRow row then 1 else 0) \<and>
   sk' = sk + (if validRow row then 0 else 1)"
proof (cases "validRow row")
  case True
  assume "groupRow (gm, ws, sk) row = (gm', ws', sk')"
  with True show ?thesis
    by (auto simp: groupRow_valid total_map_entry total_update_new map_of_update_same)
next
  case False
  assume "groupRow (gm, ws, sk) row = (gm', ws', sk')"
  with False groupRow_invalid [OF False, of gm ws sk] show ?thesis
    by auto
qed

lemma groupLoop_counts:
  "totalOptions (map snd (fst (groupLoop rows))) = length (filter validRow rows) \<and>
   snd (snd (groupLoop rows)) = length (filter (\<lambda>row. \<not> validRow row) rows)"
proof (induction rows rule: rev_induct)
  case Nil
  then show ?case by (simp add: groupLoop_def totalOptions_def)
next
  case (snoc row rows)
  obtain gm ws sk where st: "groupLoop rows = (gm, ws, sk)"
    by (cases "groupLoop rows") auto
  obtain gm' ws' sk' where st': "groupRow (gm, ws, sk) row = (gm', ws', sk')"
    by (cases "groupRow (gm, ws, sk) row") auto
  have "groupLoop (rows @ [row]) = (gm', ws', sk')"
    by (simp add: groupLoop_snoc st st')
  moreover from snoc have "totalOptions (map snd gm) = length (filter validRow rows)"
    and "sk = length (filter (\<lambda>row. \<not> validRow row) rows)"
    by (simp_all add: st)
  ultimately show ?case
    using groupRow_counts [OF st'] by simp
qed

lemma groupQuestions_eq:
  "fst (groupQuestions rows) = map snd (fst (groupLoop rows)) \<and>
   snd (snd (groupQuestions rows)) = snd (snd (groupLoop rows))"
  by (simp add: groupQuestions_def Let_def split: prod.splits)


section \<open>Counts\<close>

text \<open>
  Claim C5, as amended. When the conversion succeeds, the option count of the result is
  the number of data rows minus the number of skipped rows; it is the number of kept
  rows (type \<open>MC\<close>, question number not empty), the skipped count is the number of the
  other rows, and the option count is the sum of the lengths of the groups' option
  sequences.
\<close>

theorem optionsCount_total:
  assumes "parseCSV content = Inr (headers, rows)"
      and "convertToD2L content points = Inr res"
  shows "optionsCount res + skippedRows res = length rows \<and>
         optionsCount res = length (filter validRow (loadSourceRows rows)) \<and>
         skippedRows res = length (filter (\<lambda>row. \<not> validRow row) (loadSourceRows rows)) \<and>
         optionsCount res = totalOptions (fst (groupQuestions (loadSourceRows rows)))"
proof -
  let ?src = "loadSourceRows rows"
  obtain groups ws sk where gq: "groupQuestions ?src = (groups, ws, sk)"
    by (cases "groupQuestions ?src") auto
  from assms gq have res: "optionsCount res = totalOptions groups" "skippedRows res = sk"
    by (auto simp: convertToD2L_def generateD2LCSV_eq Let_def split: if_splits prod.splits)
  have g: "groups = map snd (fst (groupLoop ?src))" and s: "sk = snd (snd (groupLoop ?src))"
    using groupQuestions_eq [of ?src] gq by simp_all
  have len: "length ?src = length rows"
    by (simp add: loadSourceRows_def)
  have "length (filter validRow ?src) + length (filter (\<lambda>row. \<not> validRow row) ?src) = length ?src"
    by (rule sum_length_filter_compl)
  with res g s len groupLoop_counts [of ?src] gq show ?thesis
    by simp
qed

theorem optionsCount_total_witness:
  "optionsCount (projr (convertToD2L sampleInput ''1'')) = 2 \<and>
   skippedRows (projr (convertToD2L sampleInput ''1'')) = 1 \<and>
   length (snd (projr (parseCSV sampleInput))) = 3"
proof -
  have p: "parseCSV sampleInput =
      Inr (fst (projr (parseCSV sampleInput)), snd (projr (parseCSV sampleInput)))"
    by code_simp
  have c: "convertToD2L sampleInput ''1'' = Inr (projr (convertToD2L sampleInput ''1''))"
    by code_simp
  have l: "length (snd (projr (parseCSV sampleInput))) = 3"
    by code_simp
  have s: "skippedRows (projr (convertToD2L sampleInput ''1'')) = 1"
    by code_simp
  from optionsCount_total [OF p c] l s show ?thesis
    by simp
qed

text \<open>
  Claim C5 as stated, with N the number of valid MC rows that carry a question number,
  fails as soon as a row is skipped: the sample input has two such rows and one skipped
  row, and the option count is 2, not 2 - 1.
\<close>

theorem optionsCount_counterexample:
  "\<not> isl (convertToD2L sampleInput ''1'') \<and>
   length (filter validRow (loadSourceRows (snd (projr (parseCSV sampleInput))))) = 2 \<and>
   skippedRows (projr (convertToD2L sampleInput ''1'')) = 1 \<and>
   optionsCount (projr (convertToD2L sampleInput ''1'')) = 2 \<and>
   optionsCount (projr (convertToD2L sampleInput ''1'')) \<noteq>
     length (filter validRow (loadSourceRows (snd (projr (parseCSV sampleInput)))))
       - skippedRows (projr (convertToD2L sampleInput ''1''))"
  by code_simp

section \<open>Fatal errors of the conversion\<close>

text \<open>
  Claim C6. When the input has a header row (the parse succeeds with headers \<open>headers\<close>)
  and some required column has no header equal to it after trimming and lower-casing,
  the conversion returns the error for missing columns; its message lists the canonical
  names of exactly the required columns that are missing, in the order of
  \<open>REQUIRED_COLUMNS\<close>. The result is an error value, so no conversion result exists.
\<close>

theorem missing_columns_error:
  assumes "parseCSV content = Inr (headers, rows)"
      and "\<exists>required \<in> set REQUIRED_COLUMNS.
             toLowerCase required \<notin> set (map (\<lambda>h. toLowerCase (trim h)) headers)"
  shows "convertToD2L content points =
           Inl (MissingColumnsError
                  (filter (\<lambda>required. toLowerCase required
                                        \<notin> set (map (\<lambda>h. toLowerCase (trim h)) headers))
                     REQUIRED_COLUMNS))"
proof -
  let ?missing = "filter (\<lambda>required. toLowerCase required
                                        \<notin> set (map (\<lambda>h. toLowerCase (trim h)) headers))
                     REQUIRED_COLUMNS"
  from assms(2) have "?missing \<noteq> []"
    by (simp add: filter_empty_conv)
  then have "validateColumns headers = (False, ?missing)"
    by (simp add: validateColumns_def Let_def)
  with assms(1) show ?thesis
    by (simp add: convertToD2L_def)
qed

theorem missing_columns_error_witness:
  "convertToD2L noNotesInput ''1'' = Inl (Error ''Missing required columns: Notes'')"
proof -
  have p: "parseCSV noNotesInput =
      Inr (fst (projr (parseCSV noNotesInput)), snd (projr (parseCSV noNotesInput)))"
    by code_simp
  have m: "\<exists>required \<in> set REQUIRED_COLUMNS.
             toLowerCase required
               \<notin> set (map (\<lambda>h. toLowerCase (trim h)) (fst (projr (parseCSV noNotesInput))))"
    by code_simp
  have f: "MissingColumnsError (filter (\<lambda>required. toLowerCase required
              \<notin> set (map (\<lambda>h. toLowerCase (trim h)) (fst (projr (parseCSV noNotesInput)))))
            REQUIRED_COLUMNS) = Error ''Missing required columns: Notes''"
    by code_simp
  from missing_columns_error [OF p m, of "''1''"] f show ?thesis
    by simp
qed


lemma groups_empty_iff:
  "fst (groupQuestions srows) = [] \<longleftrightarrow> (\<forall>row \<in> set srows. \<not> validRow row)"
  by (simp add: groupQuestions_eq groupMap_char firstOccurrences_def filter_empty_conv)

text \<open>
  Claim C7. When the input parses and its headers pass validation, the grouper yields no
  group exactly when every data row is skipped, and in that case the conversion returns
  the error for no questions. The emitter is not reached: the result is an error value
  and carries no CSV text.
\<close>

theorem no_questions_error:
  assumes "parseCSV content = Inr (headers, rows)"
      and "fst (validateColumns headers)"
  shows "(fst (groupQuestions (loadSourceRows rows)) = []
            \<longleftrightarrow> (\<forall>row \<in> set (loadSourceRows rows). \<not> validRow row)) \<and>
         (fst (groupQuestions (loadSourceRows rows)) = []
            \<longrightarrow> convertToD2L content points = Inl NoQuestionsError)"
proof -
  obtain missing where v: "validateColumns headers = (True, missing)"
    using assms(2) by (cases "validateColumns headers") auto
  have "fst (groupQuestions (loadSourceRows rows)) = []
          \<Longrightarrow> convertToD2L content points = Inl NoQuestionsError"
    using assms(1) v by (auto simp: convertToD2L_def Let_def split: prod.splits)
  then show ?thesis
    using groups_empty_iff by blast
qed


theorem no_questions_error_witness:
  "length (loadSourceRows (snd (projr (parseCSV allSkippedInput)))) = 2 \<and>
   fst (groupQuestions (loadSourceRows (snd (projr (parseCSV allSkippedInput))))) = [] \<and>
   convertToD2L allSkippedInput ''1'' =
     Inl (Error ''No valid MC questions found in the input file'')"
proof -
  have p: "parseCSV allSkippedInput =
      Inr (fst (projr (parseCSV allSkippedInput)), snd (projr (parseCSV allSkippedInput)))"
    by code_simp
  have v: "fst (validateColumns (fst (projr (parseCSV allSkippedInput))))"
    by code_simp
  have l: "length (loadSourceRows (snd (projr (parseCSV allSkippedInput)))) = 2"
    by code_simp
  have s: "\<forall>row \<in> set (loadSourceRows (snd (projr (parseCSV allSkippedInput)))). \<not> validRow row"
    by code_simp
  from no_questions_error [OF p v, of "''1''"] s l show ?thesis
    by (simp add: NoQuestionsError_def)
qed

section \<open>Options, groups and their order\<close>

text \<open>
  Claim C2. The text that \<open>generateD2LCSV\<close> emits for the groups of \<open>groupQuestions\<close>
  consists, group by group, of the three head lines, one option line for each kept row
  with the group's key, and the separator line. In the option line of a row the weight
  field is \<open>100\<close> when the row's answer-match field, trimmed and lower-cased, is
  \<open>correct\<close>, and \<open>0\<close> for every other answer-match value. The emitter counts one
  option per kept row, so no option is left out.
\<close>

theorem option_weight:
  "fst (generateD2LCSV (fst (groupQuestions rows)) points) =
     join [LF]
       (concat
          (map (\<lambda>k. [''NewQuestion,MC,,,'',
                      ''QuestionText,'' @ escapeCSV (trim (gQText (groupOfKey rows k))) @ '',,,'',
                      ''Points,'' @ points @ '',,,'']
                     @ map (\<lambda>row. ''Option,''
                                    @ (if toLowerCase (trim (answerMatch row)) = ''correct''
                                       then ''100'' else ''0'')
                                    @ '','' @ escapeCSV (answer row) @ '',,''
                                    @ escapeCSV (notes' row))
                         (rowsOfKey k rows)
                     @ ['',,,,''])
               (firstOccurrences (map rowKey (filter validRow rows))))) \<and>
   snd (generateD2LCSV (fst (groupQuestions rows)) points) = length (filter validRow rows)"
proof -
  have w: "showNat 100 = ''100''" "showNat 0 = ''0''"
    by code_simp+
  have line: "\<And>row. optionLine (rowOption row) =
      ''Option,'' @ (if toLowerCase (trim (answerMatch row)) = ''correct'' then ''100'' else ''0'')
        @ '','' @ escapeCSV (answer row) @ '',,'' @ escapeCSV (notes' row)"
    by (simp add: optionLine_def rowOption_def w)
  have block: "\<And>k. groupLines points (groupOfKey rows k) =
      [''NewQuestion,MC,,,'',
       ''QuestionText,'' @ escapeCSV (trim (gQText (groupOfKey rows k))) @ '',,,'',
       ''Points,'' @ points @ '',,,'']
      @ map (\<lambda>row. ''Option,''
                     @ (if toLowerCase (trim (answerMatch row)) = ''correct''
                        then ''100'' else ''0'')
                     @ '','' @ escapeCSV (answer row) @ '',,'' @ escapeCSV (notes' row))
          (rowsOfKey k rows)
      @ ['',,,,'']"
    by (simp add: groupLines_def groupOfKey_def o_def line)
  have groups: "fst (groupQuestions rows) =
      map (groupOfKey rows) (firstOccurrences (map rowKey (filter validRow rows)))"
    by (simp add: groupQuestions_eq groupMap_char o_def)
  have "fst (generateD2LCSV (fst (groupQuestions rows)) points) =
      join [LF] (concat (map (\<lambda>k. groupLines points (groupOfKey rows k))
                           (firstOccurrences (map rowKey (filter validRow rows)))))"
    by (simp add: generateD2LCSV_eq groups o_def)
  moreover have "snd (generateD2LCSV (fst (groupQuestions rows)) points) =
      length (filter validRow rows)"
    using groupLoop_counts [of rows] by (simp add: generateD2LCSV_eq groupQuestions_eq)
  ultimately show ?thesis
    by (simp only: block simp_thms)
qed

theorem option_weight_witness:
  "fst (generateD2LCSV (fst (groupQuestions sampleRows)) ''2'') =
     join [LF]
       [''NewQuestion,MC,,,'', ''QuestionText,Capital?,,,'', ''Points,2,,,'',
        ''Option,100,Paris,,yes'', ''Option,0,'' @ [DQ] @ ''Lyon, maybe'' @ [DQ] @ '',,'',
        '',,,,'',
        ''NewQuestion,MC,,,'', ''QuestionText,Capital?,,,'', ''Points,2,,,'',
        ''Option,0,Rome,,no'', '',,,,''] \<and>
   map (\<lambda>row. toLowerCase (trim (answerMatch row))) (filter validRow sampleRows) =
     [''correct'', ''incorrect'', ''corect''] \<and>
   snd (generateD2LCSV (fst (groupQuestions sampleRows)) ''2'') = 3"
proof -
  have l: "concat
          (map (\<lambda>k. [''NewQuestion,MC,,,'',
                      ''QuestionText,'' @ escapeCSV (trim (gQText (groupOfKey sampleRows k))) @ '',,,'',
                      ''Points,'' @ ''2'' @ '',,,'']
                     @ map (\<lambda>row. ''Option,''
                                    @ (if toLowerCase (trim (answerMatch row)) = ''correct''
                                       then ''100'' else ''0'')
                                    @ '','' @ escapeCSV (answer row) @ '',,''
                                    @ escapeCSV (notes' row))
                         (rowsOfKey k sampleRows)
                     @ ['',,,,''])
               (firstOccurrences (map rowKey (filter validRow sampleRows)))) =
       [''NewQuestion,MC,,,'', ''QuestionText,Capital?,,,'', ''Points,2,,,'',
        ''Option,100,Paris,,yes'', ''Option,0,'' @ [DQ] @ ''Lyon, maybe'' @ [DQ] @ '',,'',
        '',,,,'',
        ''NewQuestion,MC,,,'', ''QuestionText,Capital?,,,'', ''Points,2,,,'',
        ''Option,0,Rome,,no'', '',,,,'']"
    by code_simp
  have m: "map (\<lambda>row. toLowerCase (trim (answerMatch row))) (filter validRow sampleRows) =
     [''correct'', ''incorrect'', ''corect'']"
    by code_simp
  have n: "length (filter validRow sampleRows) = 3"
    by code_simp
  note w = option_weight [of sampleRows "''2''"]
  have "fst (generateD2LCSV (fst (groupQuestions sampleRows)) ''2'') =
     join [LF]
       [''NewQuestion,MC,,,'', ''QuestionText,Capital?,,,'', ''Points,2,,,'',
        ''Option,100,Paris,,yes'', ''Option,0,'' @ [DQ] @ ''Lyon, maybe'' @ [DQ] @ '',,'',
        '',,,,'',
        ''NewQuestion,MC,,,'', ''QuestionText,Capital?,,,'', ''Points,2,,,'',
        ''Option,0,Rome,,no'', '',,,,'']"
    by (simp only: w [THEN conjunct1] l)
  moreover have "snd (generateD2LCSV (fst (groupQuestions sampleRows)) ''2'') = 3"
    by (simp only: w [THEN conjunct2] n)
  ultimately show ?thesis
    using m by (intro conjI)
qed

text \<open>
  Claim C3. The keys of the group map are pairwise different and are exactly the trimmed
  question numbers of the kept rows. The group stored under a key has one option for
  each kept row with that key and for no other row, whatever the stems of these rows
  are, and its stem is the stem of the first kept row with that key. The groups returned
  are the groups of the map, one per key.
\<close>

theorem group_identity:
  "distinct (map fst (fst (groupLoop rows))) \<and>
   set (map fst (fst (groupLoop rows))) = rowKey ` {row \<in> set rows. validRow row} \<and>
   (\<forall>(k, grp) \<in> set (fst (groupLoop rows)).
      options grp = map rowOption (rowsOfKey k rows) \<and>
      (\<exists>row rest. rowsOfKey k rows = row # rest \<and> gQText grp = qText row)) \<and>
   fst (groupQuestions rows) = map snd (fst (groupLoop rows))"
proof -
  let ?ks = "firstOccurrences (map rowKey (filter validRow rows))"
  have "\<And>k. k \<in> set ?ks \<Longrightarrow>
      \<exists>row rest. rowsOfKey k rows = row # rest \<and> gQText (groupOfKey rows k) = qText row"
  proof -
    fix k assume "k \<in> set ?ks"
    then have "rowsOfKey k rows \<noteq> []"
      by (simp add: rowsOfKey_empty_iff)
    then show "\<exists>row rest. rowsOfKey k rows = row # rest \<and> gQText (groupOfKey rows k) = qText row"
      by (cases "rowsOfKey k rows") (simp_all add: groupOfKey_def)
  qed
  moreover have "\<And>k. options (groupOfKey rows k) = map rowOption (rowsOfKey k rows)"
    by (simp add: groupOfKey_def)
  moreover have "map fst (fst (groupLoop rows)) = ?ks"
    by (simp add: groupMap_char o_def)
  ultimately show ?thesis
    by (auto simp: groupQuestions_eq groupMap_char)
qed

theorem group_identity_witness:
  "map fst (fst (groupLoop sampleRows)) = [''7'', ''8''] \<and>
   map (gQText \<circ> snd) (fst (groupLoop sampleRows)) = [''Capital?'', ''Capital?''] \<and>
   map (map qText) (map (\<lambda>k. rowsOfKey k sampleRows) [''7'', ''8'']) =
     [[''Capital?'', ''Other''], [''Capital?'']] \<and>
   map (length \<circ> options \<circ> snd) (fst (groupLoop sampleRows)) = [2, 1]"
proof -
  have e: "fst (groupLoop sampleRows) =
      [(''7'', snd (fst (groupLoop sampleRows) ! 0)), (''8'', snd (fst (groupLoop sampleRows) ! 1))]"
    by code_simp
  have r: "map (map qText) (map (\<lambda>k. rowsOfKey k sampleRows) [''7'', ''8'']) =
     [[''Capital?'', ''Other''], [''Capital?'']]"
    by code_simp
  have q: "map (gQText \<circ> snd) (fst (groupLoop sampleRows)) = [''Capital?'', ''Capital?'']"
    by code_simp
  from group_identity [of sampleRows] have
    "\<forall>(k, grp) \<in> set (fst (groupLoop sampleRows)). options grp = map rowOption (rowsOfKey k sampleRows)"
    by blast
  then have "\<forall>(k, grp) \<in> set (fst (groupLoop sampleRows)). length (options grp) = length (rowsOfKey k sampleRows)"
    by auto
  then have "map (length \<circ> options \<circ> snd) (fst (groupLoop sampleRows)) =
      map (\<lambda>k. length (rowsOfKey k sampleRows)) (map fst (fst (groupLoop sampleRows)))"
    by auto
  moreover have "map fst (fst (groupLoop sampleRows)) = [''7'', ''8'']"
    by (subst e) simp
  moreover have "map (\<lambda>k. length (rowsOfKey k sampleRows)) [''7'', ''8''] = [2, 1]"
    by code_simp
  ultimately show ?thesis
    using r q by simp
qed


text \<open>
  Claim C4. The groups are returned in the order in which their keys first occur among
  the kept rows, each with the options of its rows in input order (\<open>groupOfKey\<close>), and
  the emitter writes the blocks of the groups, and inside a block the option lines, in
  that order (\<open>groupLines\<close>).
\<close>

theorem order_preserved:
  "fst (groupQuestions rows) =
     map (groupOfKey rows) (firstOccurrences (map rowKey (filter validRow rows))) \<and>
   fst (generateD2LCSV (fst (groupQuestions rows)) points) =
     join [LF] (concat (map (\<lambda>k. groupLines points (groupOfKey rows k))
                          (firstOccurrences (map rowKey (filter validRow rows)))))"
proof -
  have groups: "fst (groupQuestions rows) =
      map (groupOfKey rows) (firstOccurrences (map rowKey (filter validRow rows)))"
    by (simp add: groupQuestions_eq groupMap_char o_def)
  have "fst (generateD2LCSV (fst (groupQuestions rows)) points) =
      join [LF] (concat (map (groupLines points) (fst (groupQuestions rows))))"
    by (simp add: generateD2LCSV_eq)
  with groups show ?thesis
    by (simp add: o_def)
qed

theorem order_preserved_witness:
  "map (map optAnswer \<circ> options) (fst (groupQuestions sampleRows)) =
     [[''Paris'', ''Lyon, maybe''], [''Rome'']] \<and>
   fst (generateD2LCSV (fst (groupQuestions sampleRows)) ''1'') =
     join [LF]
       [''NewQuestion,MC,,,'', ''QuestionText,Capital?,,,'', ''Points,1,,,'',
        ''Option,100,Paris,,yes'', ''Option,0,'' @ [DQ] @ ''Lyon, maybe'' @ [DQ] @ '',,'',
        '',,,,'',
        ''NewQuestion,MC,,,'', ''QuestionText,Capital?,,,'', ''Points,1,,,'',
        ''Option,0,Rome,,no'', '',,,,'']"
proof -
  have g: "map (map optAnswer \<circ> options)
      (map (groupOfKey sampleRows) (firstOccurrences (map rowKey (filter validRow sampleRows)))) =
     [[''Paris'', ''Lyon, maybe''], [''Rome'']]"
    by code_simp
  have l: "concat (map (\<lambda>k. groupLines ''1'' (groupOfKey sampleRows k))
                          (firstOccurrences (map rowKey (filter validRow sampleRows)))) =
       [''NewQuestion,MC,,,'', ''QuestionText,Capital?,,,'', ''Points,1,,,'',
        ''Option,100,Paris,,yes'', ''Option,0,'' @ [DQ] @ ''Lyon, maybe'' @ [DQ] @ '',,'',
        '',,,,'',
        ''NewQuestion,MC,,,'', ''QuestionText,Capital?,,,'', ''Points,1,,,'',
        ''Option,0,Rome,,no'', '',,,,'']"
    by code_simp
  note o = order_preserved [of sampleRows "''1''"]
  have "map (map optAnswer \<circ> options) (fst (groupQuestions sampleRows)) =
     [[''Paris'', ''Lyon, maybe''], [''Rome'']]"
    by (subst o [THEN conjunct1]) (rule g)
  moreover have "fst (generateD2LCSV (fst (groupQuestions sampleRows)) ''1'') =
     join [LF]
       [''NewQuestion,MC,,,'', ''QuestionText,Capital?,,,'', ''Points,1,,,'',
        ''Option,100,Paris,,yes'', ''Option,0,'' @ [DQ] @ ''Lyon, maybe'' @ [DQ] @ '',,'',
        '',,,,'',
        ''NewQuestion,MC,,,'', ''QuestionText,Capital?,,,'', ''Points,1,,,'',
        ''Option,0,Rome,,no'', '',,,,'']"
    by (simp only: o [THEN conjunct2] l)
  ultimately show ?thesis
    by (rule conjI)
qed

section \<open>The question-prompt column\<close>

lemma sameExceptQuestion_keys: "sameExceptQuestion row1 row2 \<Longrightarrow> map fst row1 = map fst row2"
  unfolding sameExceptQuestion_def
  by (induction row1 row2 rule: list_all2_induct) auto

lemma sameExceptQuestion_map_of:
  "sameExceptQuestion row1 row2 \<Longrightarrow> toLowerCase (trim key) \<noteq> toLowerCase ''Question'' \<Longrightarrow>
   map_of row1 key = map_of row2 key"
  unfolding sameExceptQuestion_def
  by (induction row1 row2 rule: list_all2_induct) auto

lemma getColumnValue_same:
  assumes "sameExceptQuestion row1 row2"
      and "toLowerCase columnName \<noteq> toLowerCase ''Question''"
  shows "getColumnValue row1 columnName = getColumnValue row2 columnName"
proof (cases "find (\<lambda>k. toLowerCase (trim k) = toLowerCase columnName) (map fst row1)")
  case None
  then show ?thesis
    using sameExceptQuestion_keys [OF assms(1)] by (simp add: getColumnValue_def)
next
  case (Some key)
  then have "toLowerCase (trim key) = toLowerCase columnName"
    by (auto simp: find_Some_iff)
  with assms(2) have "map_of row1 key = map_of row2 key"
    using sameExceptQuestion_map_of [OF assms(1)] by simp
  with Some show ?thesis
    using sameExceptQuestion_keys [OF assms(1)] by (simp add: getColumnValue_def)
qed

lemma other_columns:
  "toLowerCase ''Q #'' \<noteq> toLowerCase ''Question''"
  "toLowerCase ''Q Type'' \<noteq> toLowerCase ''Question''"
  "toLowerCase ''Q Text'' \<noteq> toLowerCase ''Question''"
  "toLowerCase ''Answer'' \<noteq> toLowerCase ''Question''"
  "toLowerCase ''Answer Match'' \<noteq> toLowerCase ''Question''"
  "toLowerCase ''Notes'' \<noteq> toLowerCase ''Question''"
  by code_simp+

lemma loadSourceRows_same:
  "list_all2 sameExceptQuestion rows1 rows2 \<Longrightarrow>
   map (\<lambda>row. row \<lparr> question := [] \<rparr>) (loadSourceRows rows1) =
   map (\<lambda>row. row \<lparr> question := [] \<rparr>) (loadSourceRows rows2)"
proof (induction rows1 rows2 rule: list_all2_induct)
  case Nil
  then show ?case by (simp add: loadSourceRows_def)
next
  case (Cons row1 rows1 row2 rows2)
  from Cons.hyps(1) have "\<And>name. toLowerCase name \<noteq> toLowerCase ''Question'' \<Longrightarrow>
      getColumnValue row1 name = getColumnValue row2 name"
    by (rule getColumnValue_same)
  with Cons.IH show ?case
    by (simp add: loadSourceRows_def other_columns)
qed

lemma groupRow_question: "groupRow st (row \<lparr> question := q \<rparr>) = groupRow st row"
  by (cases st) (simp add: groupRow_def Let_def)

lemma groupLoop_question:
  "foldl groupRow st (map (\<lambda>row. row \<lparr> question := [] \<rparr>) rows) = foldl groupRow st rows"
  by (induction rows arbitrary: st) (simp_all add: groupRow_question)

lemma groupQuestions_question:
  "groupQuestions (map (\<lambda>row. row \<lparr> question := [] \<rparr>) rows) = groupQuestions rows"
  by (simp add: groupQuestions_def groupLoop_def groupLoop_question)

text \<open>
  Claim C9, as amended. Two inputs with the same header row and the same number of
  non-blank data lines, whose parsed rows agree in every value except those stored
  under a question-prompt column, give the same outcome of the conversion: the same
  result (text, counts, warnings, skipped count) or the same error.
\<close>

theorem prompt_ignored:
  assumes "parseCSV content1 = Inr (headers, rows1)"
      and "parseCSV content2 = Inr (headers, rows2)"
      and "list_all2 sameExceptQuestion rows1 rows2"
  shows "convertToD2L content1 points = convertToD2L content2 points"
proof -
  have "groupQuestions (loadSourceRows rows1) = groupQuestions (loadSourceRows rows2)"
    using loadSourceRows_same [OF assms(3)]
      groupQuestions_question [of "loadSourceRows rows1"]
      groupQuestions_question [of "loadSourceRows rows2"]
    by simp
  with assms(1,2) show ?thesis
    by (cases "validateColumns headers") (simp add: convertToD2L_def Let_def)
qed

theorem prompt_ignored_witness:
  "map (\<lambda>row. getColumnValue row ''Question'') (snd (projr (parseCSV sampleInput))) =
     [''p1'', ''p2'', ''p3''] \<and>
   map (\<lambda>row. getColumnValue row ''Question'') (snd (projr (parseCSV promptInput))) =
     [[], ''other prompt'', ''a, b''] \<and>
   \<not> isl (convertToD2L sampleInput ''1'') \<and>
   convertToD2L sampleInput ''1'' = convertToD2L promptInput ''1''"
proof -
  have p1: "parseCSV sampleInput =
      Inr (fst (projr (parseCSV sampleInput)), snd (projr (parseCSV sampleInput)))"
    by code_simp
  have p2: "parseCSV promptInput =
      Inr (fst (projr (parseCSV sampleInput)), snd (projr (parseCSV promptInput)))"
    by code_simp
  have s: "list_all2 sameExceptQuestion (snd (projr (parseCSV sampleInput)))
      (snd (projr (parseCSV promptInput)))"
    by code_simp
  have q1: "map (\<lambda>row. getColumnValue row ''Question'') (snd (projr (parseCSV sampleInput))) =
     [''p1'', ''p2'', ''p3'']"
    by code_simp
  have q2: "map (\<lambda>row. getColumnValue row ''Question'') (snd (projr (parseCSV promptInput))) =
     [[], ''other prompt'', ''a, b'']"
    by code_simp
  have c: "\<not> isl (convertToD2L sampleInput ''1'')"
    by code_simp
  from prompt_ignored [OF p1 p2 s, of "''1''"] q1 q2 c show ?thesis
    by (simp only: simp_thms)
qed

text \<open>
  Claim C9 as stated fails when the prompt column comes first and a data line holds a
  prompt and nothing else: the two texts differ only in the characters of prompt cells,
  but the line \<open>p2\<close> is a row without question number, which is skipped with a warning,
  while the blank line in its place is dropped before rows are built.
\<close>

theorem prompt_counterexample:
  "\<not> isl (convertToD2L promptLineInput ''1'') \<and>
   \<not> isl (convertToD2L blankLineInput ''1'') \<and>
   skippedRows (projr (convertToD2L promptLineInput ''1'')) = 1 \<and>
   skippedRows (projr (convertToD2L blankLineInput ''1'')) = 0 \<and>
   length (warnings (projr (convertToD2L promptLineInput ''1''))) = 1 \<and>
   warnings (projr (convertToD2L blankLineInput ''1'')) = [] \<and>
   convertToD2L promptLineInput ''1'' \<noteq> convertToD2L blankLineInput ''1''"
  by code_simp


section \<open>Escaping and re-parsing\<close>

text \<open>
  The scanner of \<open>parseCSVLine\<close> reads an escaped field back as the value it was made from,
  whatever follows the field, as long as that is not a double quote.
\<close>

lemma parseLoop_plain:
  "DQ \<notin> set v \<Longrightarrow> COMMA \<notin> set v \<Longrightarrow>
   parseLoop r cur False (v @ rest) = parseLoop r (cur @ v) False rest"
  by (induction v arbitrary: cur) auto

lemma parseLoop_quoted:
  "rest = [] \<or> hd rest \<noteq> DQ \<Longrightarrow>
   parseLoop r cur True (doubleQuotes v @ DQ # rest) = parseLoop r (cur @ v) False rest"
proof (induction v arbitrary: cur)
  case Nil
  then show ?case by (cases rest) auto
next
  case (Cons c cs)
  obtain d ds where tail: "doubleQuotes cs @ DQ # rest = d # ds"
    by (cases "doubleQuotes cs @ DQ # rest") auto
  show ?case
  proof (cases "c = DQ")
    case True
    then show ?thesis using Cons by simp
  next
    case False
    have "parseLoop r cur True (c # d # ds) = parseLoop r (cur @ [c]) True (d # ds)"
      using False by simp
    then show ?thesis
      using False Cons tail by simp
  qed
qed

lemma parseLoop_field:
  "rest = [] \<or> hd rest \<noteq> DQ \<Longrightarrow>
   parseLoop r cur False (escapeCSV v @ rest) = parseLoop r (cur @ v) False rest"
  by (simp add: escapeCSV_def parseLoop_plain parseLoop_quoted)

lemma parseLoop_line:
  "parseLoop r cur False (join [COMMA] (escapeCSV v # map escapeCSV vs)) =
     (r @ butlast ((cur @ v) # vs), last ((cur @ v) # vs), False)"
proof (induction vs arbitrary: r cur v)
  case Nil
  have "parseLoop r cur False (escapeCSV v @ []) = parseLoop r (cur @ v) False []"
    by (rule parseLoop_field) simp
  then show ?case by simp
next
  case (Cons w ws)
  have "parseLoop r cur False (escapeCSV v @ COMMA # join [COMMA] (escapeCSV w # map escapeCSV ws)) =
      parseLoop r (cur @ v) False (COMMA # join [COMMA] (escapeCSV w # map escapeCSV ws))"
    by (rule parseLoop_field) (simp add: COMMA_def DQ_def)
  also have "\<dots> = parseLoop (r @ [cur @ v]) [] False (join [COMMA] (escapeCSV w # map escapeCSV ws))"
    by (simp add: COMMA_def DQ_def)
  finally show ?case
    using Cons [of "r @ [cur @ v]" "[]" w] by simp
qed

lemma parseCSVLine_escaped:
  "vs \<noteq> [] \<Longrightarrow> parseCSVLine (join [COMMA] (map escapeCSV vs)) = vs"
  by (cases vs) (simp_all add: parseCSVLine_def parseLoop_line)


lemma plain_fields:
  "escapeCSV ''NewQuestion'' = ''NewQuestion''" "escapeCSV ''MC'' = ''MC''"
  "escapeCSV ''QuestionText'' = ''QuestionText''" "escapeCSV ''Points'' = ''Points''"
  "escapeCSV ''Option'' = ''Option''" "escapeCSV [] = []"
  "escapeCSV ''100'' = ''100''" "escapeCSV ''0'' = ''0''"
  "showNat 100 = ''100''" "showNat 0 = ''0''"
  by code_simp+

lemma escapeCSV_plain:
  "COMMA \<notin> set v \<Longrightarrow> DQ \<notin> set v \<Longrightarrow> LF \<notin> set v \<Longrightarrow> escapeCSV v = v"
  by (simp add: escapeCSV_def)

lemma groupLines_fields: "groupLines points grp = map (join [COMMA]) (groupFields points grp)"
  by (simp add: groupLines_def groupFields_def optionLine_def optionFields_def COMMA_def)

lemma groupFields_values:
  "COMMA \<notin> set points \<Longrightarrow> DQ \<notin> set points \<Longrightarrow> LF \<notin> set points \<Longrightarrow>
   groupFields points grp = map (map escapeCSV) (groupValues points grp)"
  by (simp add: groupFields_def groupValues_def optionFields_def optionValues_def plain_fields
      escapeCSV_plain)

lemma groupValues_nonempty: "values \<in> set (groupValues points grp) \<Longrightarrow> values \<noteq> []"
  by (auto simp: groupValues_def optionValues_def)

lemma parse_groupLines:
  assumes "COMMA \<notin> set points" "DQ \<notin> set points" "LF \<notin> set points"
  shows "map parseCSVLine (groupLines points grp) = groupValues points grp"
proof -
  have "map parseCSVLine (groupLines points grp) =
      map (\<lambda>values. parseCSVLine (join [COMMA] (map escapeCSV values))) (groupValues points grp)"
    by (simp add: groupLines_fields groupFields_values [OF assms] o_def)
  also have "\<dots> = map (\<lambda>values. values) (groupValues points grp)"
    by (rule map_cong) (simp_all add: parseCSVLine_escaped groupValues_nonempty)
  finally show ?thesis by simp
qed

lemma emitted_lines:
  "fst (foldl (emitGroup points) ([], 0) groups) = concat (map (groupLines points) groups)"
  by (simp add: emitGroup_foldl)

lemma parse_emitted_lines:
  assumes "COMMA \<notin> set points" "DQ \<notin> set points" "LF \<notin> set points"
  shows "map parseCSVLine (fst (foldl (emitGroup points) ([], 0) groups)) =
           concat (map (groupValues points) groups)"
  by (simp add: emitted_lines map_concat o_def parse_groupLines [OF assms])

lemma closesAtEnd_doubleQuotes: "closesAtEnd (doubleQuotes v @ [DQ])"
proof (induction v)
  case Nil
  then show ?case by simp
next
  case (Cons c cs)
  obtain d ds where "doubleQuotes cs @ [DQ] = d # ds"
    by (cases "doubleQuotes cs @ [DQ]") auto
  with Cons show ?case by simp
qed

lemma wellEscaped_escapeCSV: "wellEscaped (escapeCSV v)"
proof (cases "COMMA \<in> set v \<or> DQ \<in> set v \<or> LF \<in> set v")
  case True
  then show ?thesis
    by (simp add: escapeCSV_def wellEscaped_def closesAtEnd_doubleQuotes)
next
  case False
  then show ?thesis
    by (cases v) (auto simp: escapeCSV_def wellEscaped_def)
qed

lemma wellEscaped_plain:
  "COMMA \<notin> set v \<Longrightarrow> DQ \<notin> set v \<Longrightarrow> LF \<notin> set v \<Longrightarrow> wellEscaped v"
  using wellEscaped_escapeCSV [of v] by (simp add: escapeCSV_plain)

lemma doubleQuotes_concat:
  "doubleQuotes v = concat (map (\<lambda>c. if c = DQ then [DQ, DQ] else [c]) v)"
  by (induction v) simp_all


text \<open>Splitting the joined lines gives the lines back when no line holds a line feed or
  ends in a carriage return; trimming leaves a line empty only when it is all white space.\<close>

lemma splitLines_plain: "LF \<notin> set l \<Longrightarrow> splitLines l = [l]"
  by (induction l rule: splitLines.induct) auto

lemma splitLines_line:
  "LF \<notin> set l \<Longrightarrow> l = [] \<or> last l \<noteq> CR \<Longrightarrow> splitLines (l @ LF # rest) = l # splitLines rest"
proof (induction l)
  case Nil
  then show ?case by (cases rest) auto
next
  case (Cons c cs)
  obtain d ds where tail: "cs @ LF # rest = d # ds"
    by (cases "cs @ LF # rest") auto
  have notsep: "\<not> (c = CR \<and> d = LF)"
  proof
    assume sep: "c = CR \<and> d = LF"
    with Cons.prems(1) tail have "cs = []"
      by (cases cs) auto
    with sep Cons.prems(2) show False by simp
  qed
  have ih: "splitLines (cs @ LF # rest) = cs # splitLines rest"
    using Cons by (cases cs) auto
  from Cons.prems(1) have "c \<noteq> LF" by auto
  with notsep have "splitLines (c # d # ds) =
      (case splitLines (d # ds) of l # ls \<Rightarrow> (c # l) # ls | [] \<Rightarrow> [[c]])"
    by auto
  with ih tail show ?case by simp
qed

lemma splitLines_join:
  "ls \<noteq> [] \<Longrightarrow> \<forall>l \<in> set ls. LF \<notin> set l \<and> (l = [] \<or> last l \<noteq> CR) \<Longrightarrow>
   splitLines (join [LF] ls) = ls"
proof (induction ls)
  case Nil
  then show ?case by simp
next
  case (Cons l ls)
  show ?case
  proof (cases ls)
    case Nil
    with Cons.prems show ?thesis by (simp add: splitLines_plain)
  next
    case (Cons y ys)
    with Cons.IH Cons.prems have "splitLines (join [LF] ls) = ls"
      by simp
    moreover from Cons.prems have "LF \<notin> set l" "l = [] \<or> last l \<noteq> CR"
      by simp_all
    ultimately show ?thesis
      using Cons by (simp add: splitLines_line)
  qed
qed

lemma trim_empty_iff: "trim s = [] \<longleftrightarrow> (\<forall>c \<in> set s. isWhiteSpace c)"
proof
  assume "trim s = []"
  then have all: "\<forall>c \<in> set (dropWhile isWhiteSpace s). isWhiteSpace c"
    by (simp add: trim_def dropWhile_eq_Nil_conv)
  have "dropWhile isWhiteSpace s = []"
  proof (rule ccontr)
    assume ne: "dropWhile isWhiteSpace s \<noteq> []"
    then have "\<not> isWhiteSpace (hd (dropWhile isWhiteSpace s))"
      by (rule hd_dropWhile)
    with all ne show False by simp
  qed
  then show "\<forall>c \<in> set s. isWhiteSpace c"
    by (simp add: dropWhile_eq_Nil_conv)
next
  assume "\<forall>c \<in> set s. isWhiteSpace c"
  then have dw: "dropWhile isWhiteSpace s = []"
    by (simp add: dropWhile_eq_Nil_conv)
  show "trim s = []"
    unfolding trim_def dw by simp
qed

lemma nonBlankLines_join:
  assumes "\<forall>l \<in> set ls. LF \<notin> set l \<and> (l = [] \<or> last l \<noteq> CR) \<and> COMMA \<in> set l"
  shows "nonBlankLines (join [LF] ls) = ls"
proof (cases "ls = []")
  case True
  then show ?thesis by (simp add: nonBlankLines_def trim_def)
next
  case False
  have "\<not> isWhiteSpace COMMA"
    by (simp add: isWhiteSpace_def COMMA_def)
  with assms have "\<forall>l \<in> set ls. trim l \<noteq> []"
    by (auto simp: trim_empty_iff)
  moreover from False assms have "splitLines (join [LF] ls) = ls"
    by (intro splitLines_join) auto
  ultimately show ?thesis
    by (simp add: nonBlankLines_def)
qed


lemma set_doubleQuotes: "set (doubleQuotes v) = set v"
  by (induction v) auto

lemma LF_escapeCSV: "LF \<in> set (escapeCSV v) \<longleftrightarrow> LF \<in> set v"
  by (auto simp: escapeCSV_def set_doubleQuotes LF_def DQ_def)

lemma last_escapeCSV:
  "v = [] \<or> last v \<noteq> CR \<Longrightarrow> escapeCSV v = [] \<or> last (escapeCSV v) \<noteq> CR"
  by (auto simp: escapeCSV_def CR_def DQ_def)

lemma optionLine_ok:
  assumes "LF \<notin> set (optAnswer opt)" "LF \<notin> set (feedback opt)"
      and "feedback opt = [] \<or> last (feedback opt) \<noteq> CR"
  shows "LF \<notin> set (optionLine opt) \<and> last (optionLine opt) \<noteq> CR \<and> COMMA \<in> set (optionLine opt)"
proof -
  have "last ('',,'' @ escapeCSV (feedback opt)) \<noteq> CR"
    using last_escapeCSV [OF assms(3)] by (auto simp: CR_def)
  then have "last (optionLine opt) \<noteq> CR"
    by (simp add: optionLine_def)
  moreover have "LF \<notin> set (optionLine opt)"
  proof -
    have "LF \<notin> set (escapeCSV (optAnswer opt))" "LF \<notin> set (escapeCSV (feedback opt))"
      using assms(1,2) by (simp_all add: LF_escapeCSV)
    then show ?thesis
      by (auto simp: optionLine_def plain_fields LF_def)
  qed
  moreover have "COMMA \<in> set (optionLine opt)"
    by (simp add: optionLine_def COMMA_def)
  ultimately show ?thesis by simp
qed

lemma groupLines_ok:
  assumes "LF \<notin> set points"
      and "LF \<notin> set (trim (gQText grp))"
      and "\<forall>opt \<in> set (options grp). LF \<notin> set (optAnswer opt) \<and> LF \<notin> set (feedback opt) \<and>
             (feedback opt = [] \<or> last (feedback opt) \<noteq> CR)"
      and "l \<in> set (groupLines points grp)"
  shows "LF \<notin> set l \<and> (l = [] \<or> last l \<noteq> CR) \<and> COMMA \<in> set l"
proof -
  from assms(4) consider
      "l = ''NewQuestion,MC,,,''"
    | "l = ''QuestionText,'' @ escapeCSV (trim (gQText grp)) @ '',,,''"
    | "l = ''Points,'' @ points @ '',,,''"
    | opt where "opt \<in> set (options grp)" "l = optionLine opt"
    | "l = '',,,,''"
    by (auto simp: groupLines_def)
  then show ?thesis
  proof cases
    case 1
    then show ?thesis by (simp add: LF_def CR_def COMMA_def)
  next
    case 2
    have "LF \<notin> set (escapeCSV (trim (gQText grp)))"
      using assms(2) by (simp add: LF_escapeCSV)
    with 2 show ?thesis by (simp add: LF_def CR_def COMMA_def)
  next
    case 3
    with assms(1) show ?thesis by (simp add: LF_def CR_def COMMA_def)
  next
    case 4
    with assms(3) optionLine_ok [of opt] show ?thesis by auto
  next
    case 5
    then show ?thesis by (simp add: LF_def CR_def COMMA_def)
  qed
qed


text \<open>
  Claim C8. For a points text without comma, double quote and line feed (it is the
  rendering of a number): \<open>escapeCSV\<close> wraps a value that contains a comma, a double
  quote or a line feed in double quotes and doubles every double quote inside, and
  returns any other value as it is; the emitted text is the lines of \<open>groupFields\<close>,
  fields joined by commas and lines by line feeds, where escaping is applied to the
  question text, the answer text and the feedback text; every line has five fields and
  no field holds a raw special character; the weight field is \<open>100\<close> or \<open>0\<close> and the
  points field is the points text, both unquoted.
\<close>

theorem escaping_invariant:
  assumes "COMMA \<notin> set points" "DQ \<notin> set points" "LF \<notin> set points"
  shows "escapeCSV v =
           (if COMMA \<in> set v \<or> DQ \<in> set v \<or> LF \<in> set v
            then [DQ] @ concat (map (\<lambda>c. if c = DQ then [DQ, DQ] else [c]) v) @ [DQ]
            else v) \<and>
         fst (generateD2LCSV groups points) =
           join [LF] (map (join [COMMA]) (concat (map (groupFields points) groups))) \<and>
         (\<forall>fields \<in> set (concat (map (groupFields points) groups)).
            length fields = 5 \<and> (\<forall>field \<in> set fields. wellEscaped field)) \<and>
         optionFields opt ! 1 = (if isCorrect opt then ''100'' else ''0'') \<and>
         groupFields points grp ! 2 = [''Points'', points, [], [], []]"
proof (intro conjI ballI)
  show "escapeCSV v =
           (if COMMA \<in> set v \<or> DQ \<in> set v \<or> LF \<in> set v
            then [DQ] @ concat (map (\<lambda>c. if c = DQ then [DQ, DQ] else [c]) v) @ [DQ]
            else v)"
    by (simp add: escapeCSV_def doubleQuotes_concat)
  have "groupLines points = (\<lambda>g. map (join [COMMA]) (groupFields points g))"
    by (rule ext) (rule groupLines_fields)
  then show "fst (generateD2LCSV groups points) =
           join [LF] (map (join [COMMA]) (concat (map (groupFields points) groups)))"
    by (simp add: generateD2LCSV_eq map_concat o_def)
  show "optionFields opt ! 1 = (if isCorrect opt then ''100'' else ''0'')"
    by (simp add: optionFields_def plain_fields)
  show "groupFields points grp ! 2 = [''Points'', points, [], [], []]"
    by (simp add: groupFields_def)
next
  fix fields assume "fields \<in> set (concat (map (groupFields points) groups))"
  then obtain g where g: "fields \<in> set (groupFields points g)"
    by auto
  have plain: "wellEscaped ''NewQuestion''" "wellEscaped ''MC''" "wellEscaped ''QuestionText''"
    "wellEscaped ''Points''" "wellEscaped ''Option''" "wellEscaped []" "wellEscaped ''100''"
    "wellEscaped ''0''"
    by code_simp+
  have pts: "wellEscaped points"
    by (rule wellEscaped_plain [OF assms])
  from g show "length fields = 5"
    by (auto simp: groupFields_def optionFields_def)
  fix field assume "field \<in> set fields"
  with g show "wellEscaped field"
    by (auto simp: groupFields_def optionFields_def plain pts wellEscaped_escapeCSV plain_fields)
qed

theorem escaping_invariant_witness:
  "escapeCSV (''a'' @ [DQ] @ ''b'') = [DQ] @ ''a'' @ [DQ, DQ] @ ''b'' @ [DQ] \<and>
   escapeCSV ''plain text'' = ''plain text'' \<and>
   fst (generateD2LCSV [quotedGroup] ''1'') =
     join [LF]
       [''NewQuestion,MC,,,'',
        ''QuestionText,'' @ [DQ] @ ''Say '' @ [DQ, DQ] @ ''hi'' @ [DQ, DQ] @ '', then go'' @ [DQ]
          @ '',,,'',
        ''Points,1,,,'',
        ''Option,100,'' @ [DQ] @ ''a, b'' @ [DQ] @ '',,'' @ [DQ, DQ, DQ, DQ],
        ''Option,0,,,plain'', '',,,,''] \<and>
   list_all (list_all wellEscaped) (concat (map (groupFields ''1'') [quotedGroup]))"
proof -
  have p: "COMMA \<notin> set ''1''" "DQ \<notin> set ''1''" "LF \<notin> set ''1''"
    by code_simp+
  note inv = escaping_invariant [OF p, of _ "[quotedGroup]"]
  have e1: "(if COMMA \<in> set (''a'' @ [DQ] @ ''b'') \<or> DQ \<in> set (''a'' @ [DQ] @ ''b'')
                \<or> LF \<in> set (''a'' @ [DQ] @ ''b'')
            then [DQ] @ concat (map (\<lambda>c. if c = DQ then [DQ, DQ] else [c]) (''a'' @ [DQ] @ ''b''))
                   @ [DQ]
            else ''a'' @ [DQ] @ ''b'') = [DQ] @ ''a'' @ [DQ, DQ] @ ''b'' @ [DQ]"
    by code_simp
  have e2: "(if COMMA \<in> set ''plain text'' \<or> DQ \<in> set ''plain text'' \<or> LF \<in> set ''plain text''
            then [DQ] @ concat (map (\<lambda>c. if c = DQ then [DQ, DQ] else [c]) ''plain text'') @ [DQ]
            else ''plain text'') = ''plain text''"
    by code_simp
  have l: "join [LF] (map (join [COMMA]) (concat (map (groupFields ''1'') [quotedGroup]))) =
     join [LF]
       [''NewQuestion,MC,,,'',
        ''QuestionText,'' @ [DQ] @ ''Say '' @ [DQ, DQ] @ ''hi'' @ [DQ, DQ] @ '', then go'' @ [DQ]
          @ '',,,'',
        ''Points,1,,,'',
        ''Option,100,'' @ [DQ] @ ''a, b'' @ [DQ] @ '',,'' @ [DQ, DQ, DQ, DQ],
        ''Option,0,,,plain'', '',,,,'']"
    by code_simp
  have "escapeCSV (''a'' @ [DQ] @ ''b'') = [DQ] @ ''a'' @ [DQ, DQ] @ ''b'' @ [DQ]"
    using inv [of "''a'' @ [DQ] @ ''b''", THEN conjunct1] e1 by (simp only:)
  moreover have "escapeCSV ''plain text'' = ''plain text''"
    using inv [of "''plain text''", THEN conjunct1] e2 by (simp only:)
  moreover have "fst (generateD2LCSV [quotedGroup] ''1'') =
     join [LF]
       [''NewQuestion,MC,,,'',
        ''QuestionText,'' @ [DQ] @ ''Say '' @ [DQ, DQ] @ ''hi'' @ [DQ, DQ] @ '', then go'' @ [DQ]
          @ '',,,'',
        ''Points,1,,,'',
        ''Option,100,'' @ [DQ] @ ''a, b'' @ [DQ] @ '',,'' @ [DQ, DQ, DQ, DQ],
        ''Option,0,,,plain'', '',,,,'']"
    using inv [THEN conjunct2, THEN conjunct1] l by (simp only:)
  moreover have "list_all (list_all wellEscaped) (concat (map (groupFields ''1'') [quotedGroup]))"
    using inv [THEN conjunct2, THEN conjunct2, THEN conjunct1]
    by (auto simp: list_all_iff)
  ultimately show ?thesis
    by (intro conjI)
qed

text \<open>
  Claim C1, as amended. For a points text without comma, double quote and line feed:
  \<open>parseCSVLine\<close> reads every line that the emitter pushes back as the values it was
  made from, that is the stem after trimming, and the answer and feedback texts exactly,
  with embedded commas, double quotes and line feeds. When no trimmed stem, answer or
  feedback holds a line feed and no feedback ends in a carriage return, the lines that
  \<open>parseCSV\<close> cuts the emitted text into are the emitted lines, so that re-parsing the
  text line by line gives the same values.
\<close>

theorem roundtrip_fields:
  assumes "COMMA \<notin> set points" "DQ \<notin> set points" "LF \<notin> set points"
  shows "map parseCSVLine (fst (foldl (emitGroup points) ([], 0) groups)) =
           concat (map (groupValues points) groups) \<and>
         ((\<forall>grp \<in> set groups.
              LF \<notin> set (trim (gQText grp)) \<and>
              (\<forall>opt \<in> set (options grp).
                 LF \<notin> set (optAnswer opt) \<and> LF \<notin> set (feedback opt) \<and>
                 (feedback opt = [] \<or> last (feedback opt) \<noteq> CR)))
          \<longrightarrow> map parseCSVLine (nonBlankLines (fst (generateD2LCSV groups points))) =
                concat (map (groupValues points) groups))"
proof (intro conjI impI)
  show fields: "map parseCSVLine (fst (foldl (emitGroup points) ([], 0) groups)) =
      concat (map (groupValues points) groups)"
    by (rule parse_emitted_lines [OF assms])
  assume safe: "\<forall>grp \<in> set groups.
              LF \<notin> set (trim (gQText grp)) \<and>
              (\<forall>opt \<in> set (options grp).
                 LF \<notin> set (optAnswer opt) \<and> LF \<notin> set (feedback opt) \<and>
                 (feedback opt = [] \<or> last (feedback opt) \<noteq> CR))"
  have "\<forall>l \<in> set (concat (map (groupLines points) groups)).
      LF \<notin> set l \<and> (l = [] \<or> last l \<noteq> CR) \<and> COMMA \<in> set l"
  proof
    fix l assume "l \<in> set (concat (map (groupLines points) groups))"
    then obtain grp where "grp \<in> set groups" "l \<in> set (groupLines points grp)"
      by auto
    with safe assms(3) show "LF \<notin> set l \<and> (l = [] \<or> last l \<noteq> CR) \<and> COMMA \<in> set l"
      by (intro groupLines_ok [of points grp l]) auto
  qed
  then have "nonBlankLines (join [LF] (concat (map (groupLines points) groups))) =
      concat (map (groupLines points) groups)"
    by (rule nonBlankLines_join)
  then have "nonBlankLines (fst (generateD2LCSV groups points)) =
      fst (foldl (emitGroup points) ([], 0) groups)"
    by (simp add: generateD2LCSV_eq emitted_lines)
  with fields show "map parseCSVLine (nonBlankLines (fst (generateD2LCSV groups points))) =
      concat (map (groupValues points) groups)"
    by simp
qed


theorem roundtrip_fields_witness:
  "map parseCSVLine (fst (foldl (emitGroup ''1'') ([], 0) [newlineGroup])) =
     [[''NewQuestion'', ''MC'', [], [], []], [''QuestionText'', ''Stem'', [], [], []],
      [''Points'', ''1'', [], [], []], [''Option'', ''0'', ''x'' @ [LF] @ ''y'', [], ''f''],
      [[], [], [], [], []]] \<and>
   map parseCSVLine (nonBlankLines (fst (generateD2LCSV [quotedGroup] ''1''))) =
     [[''NewQuestion'', ''MC'', [], [], []],
      [''QuestionText'', ''Say '' @ [DQ] @ ''hi'' @ [DQ] @ '', then go'', [], [], []],
      [''Points'', ''1'', [], [], []], [''Option'', ''100'', ''a, b'', [], [DQ]],
      [''Option'', ''0'', [], [], ''plain''], [[], [], [], [], []]]"
proof -
  have p: "COMMA \<notin> set ''1''" "DQ \<notin> set ''1''" "LF \<notin> set ''1''"
    by code_simp+
  have safe: "\<forall>grp \<in> set [quotedGroup].
              LF \<notin> set (trim (gQText grp)) \<and>
              (\<forall>opt \<in> set (options grp).
                 LF \<notin> set (optAnswer opt) \<and> LF \<notin> set (feedback opt) \<and>
                 (feedback opt = [] \<or> last (feedback opt) \<noteq> CR))"
    by code_simp
  have v1: "concat (map (groupValues ''1'') [newlineGroup]) =
     [[''NewQuestion'', ''MC'', [], [], []], [''QuestionText'', ''Stem'', [], [], []],
      [''Points'', ''1'', [], [], []], [''Option'', ''0'', ''x'' @ [LF] @ ''y'', [], ''f''],
      [[], [], [], [], []]]"
    by code_simp
  have v2: "concat (map (groupValues ''1'') [quotedGroup]) =
     [[''NewQuestion'', ''MC'', [], [], []],
      [''QuestionText'', ''Say '' @ [DQ] @ ''hi'' @ [DQ] @ '', then go'', [], [], []],
      [''Points'', ''1'', [], [], []], [''Option'', ''100'', ''a, b'', [], [DQ]],
      [''Option'', ''0'', [], [], ''plain''], [[], [], [], [], []]]"
    by code_simp
  from roundtrip_fields [OF p, of "[newlineGroup]"] have
    "map parseCSVLine (fst (foldl (emitGroup ''1'') ([], 0) [newlineGroup])) =
       concat (map (groupValues ''1'') [newlineGroup])"
    by (rule conjunct1)
  moreover from roundtrip_fields [OF p, of "[quotedGroup]"] safe have
    "map parseCSVLine (nonBlankLines (fst (generateD2LCSV [quotedGroup] ''1''))) =
       concat (map (groupValues ''1'') [quotedGroup])"
    by blast
  ultimately show ?thesis
    by (simp only: v1 v2)
qed

text \<open>
  Claim C1 as stated fails for an answer with an embedded line feed: \<open>parseCSV\<close> cuts the
  text at the line feed before it looks at quotes, the answer is among the values of no
  parsed row, and the two halves of the option line are parsed as lines of their own.
  The rows of \<open>parseCSV\<close> are moreover keyed by the fields of the first emitted line,
  three of which are empty, so that the feedback replaces the answer under the empty key:
  the answer \<open>a, b\<close> of the second group is among the values of no parsed row either.
\<close>

theorem roundtrip_counterexample:
  "\<not> isl (parseCSV (fst (generateD2LCSV [newlineGroup] ''1''))) \<and>
   ''x'' @ [LF] @ ''y''
     \<notin> set (map snd (concat (snd (projr (parseCSV (fst (generateD2LCSV [newlineGroup] ''1''))))))) \<and>
   map parseCSVLine (nonBlankLines (fst (generateD2LCSV [newlineGroup] ''1''))) =
     [[''NewQuestion'', ''MC'', [], [], []], [''QuestionText'', ''Stem'', [], [], []],
      [''Points'', ''1'', [], [], []], [''Option'', ''0'', ''x''], [''y,,f''],
      [[], [], [], [], []]] \<and>
   \<not> isl (parseCSV (fst (generateD2LCSV [quotedGroup] ''1''))) \<and>
   ''a, b''
     \<notin> set (map snd (concat (snd (projr (parseCSV (fst (generateD2LCSV [quotedGroup] ''1'')))))))"
  by code_simp


end
